theory Spec2Isabelle
  imports Complex_Main "HOL-Library.Multiset" "HOL-Library.Log_Nat"
begin

section \<open>Contact analytics dashboard: data model\<close>

text \<open>
  The dashboard (\<^verbatim>\<open>ContactAnalyticsDashboard.tsx\<close>) works on the rows returned by the
  data backend. A row is a \<^verbatim>\<open>Contact\<close>: \<^verbatim>\<open>id\<close> (here \<open>id_c\<close>) and \<^verbatim>\<open>contact_name\<close> are always
  present, every other column is optional (absent or \<^verbatim>\<open>null\<close> in the row).

  Modelling conventions for the JavaScript values:
  \<^item> an optional column is an \<open>option\<close>; \<open>None\<close> stands for \<^verbatim>\<open>undefined\<close>/\<^verbatim>\<open>null\<close>;
  \<^item> a \<^verbatim>\<open>number\<close> that came out of the backend's JSON is a finite double, that is a
    rational number; comparisons of such numbers are exact;
  \<^item> lengths and counters are natural numbers.
\<close>

record contact =
  id_c :: string
  contact_name :: string
  company_name :: "string option"
  contact_source :: "string option"
  industry :: "string option"
  region :: "string option"
  segment :: "string option"
  score :: "rat option"

text \<open>\<^verbatim>\<open>s || d\<close> on an optional string: \<^verbatim>\<open>undefined\<close>, \<^verbatim>\<open>null\<close> and the empty string are falsy.\<close>

definition truthy_str :: "string option \<Rightarrow> bool" where
  "truthy_str s = (case s of None \<Rightarrow> False | Some t \<Rightarrow> t \<noteq> [])"

definition or_str :: "string option \<Rightarrow> string \<Rightarrow> string" where
  "or_str s d = (case s of None \<Rightarrow> d | Some t \<Rightarrow> if t = [] then d else t)"

text \<open>\<^verbatim>\<open>c.score || 0\<close>: a missing score and the score 0 both give 0.\<close>

definition score_or_0 :: "contact \<Rightarrow> rat" where
  "score_or_0 c = (case score c of None \<Rightarrow> 0 | Some x \<Rightarrow> if x = 0 then 0 else x)"

section \<open>Numbers\<close>

text \<open>
  A JavaScript \<^verbatim>\<open>number\<close> is an IEEE 754 double: a finite value, which is a rational number,
  one of the two infinities, or \<^verbatim>\<open>NaN\<close>. (The sign of a zero is not kept: it plays no role
  here.) The result of \<^verbatim>\<open>+\<close> and of \<^verbatim>\<open>/\<close> is the exact result rounded to the nearest double,
  a tie going to the double with the even significand.

  \<open>ilog2 x\<close> is the binary exponent of a positive \<open>x\<close>, the \<open>e\<close> with \<open>2\<^sup>e \<le> x < 2\<^sup>e\<^sup>+\<^sup>1\<close>.
  The doubles around \<open>x\<close> are the multiples of \<open>2\<^sup>E\<close> with \<open>E = e - 52\<close>, and with
  \<open>E = -1074\<close> for the subnormal ones; a result of magnitude \<open>2\<^sup>1\<^sup>0\<^sup>2\<^sup>4\<close> overflows to an
  infinity.
\<close>

datatype number = Finite rat | PosInfinity | NegInfinity | NaN

definition ilog2 :: "rat \<Rightarrow> int" where
  "ilog2 x =
     (let d = int (floorlog 2 (nat (fst (quotient_of x))))
              - int (floorlog 2 (nat (snd (quotient_of x))))
      in if 2 powi d \<le> x then d else d - 1)"

definition round_half_even :: "rat \<Rightarrow> int" where
  "round_half_even y =
     (let f = \<lfloor>y\<rfloor>; r = y - of_int f
      in if r < 1 / 2 then f else if 1 / 2 < r then f + 1 else if even f then f else f + 1)"

definition fl :: "rat \<Rightarrow> number" where
  "fl x =
     (if x = 0 then Finite 0
      else
        let E = max (ilog2 \<bar>x\<bar> - 52) (- 1074);
            y = of_int (round_half_even (\<bar>x\<bar> / 2 powi E)) * 2 powi E
        in if 2 powi 1024 \<le> y then (if 0 < x then PosInfinity else NegInfinity)
           else Finite (sgn x * y))"

fun plus_number :: "number \<Rightarrow> number \<Rightarrow> number" where
  "plus_number (Finite a) (Finite b) = fl (a + b)"
| "plus_number NaN y = NaN"
| "plus_number x NaN = NaN"
| "plus_number PosInfinity NegInfinity = NaN"
| "plus_number NegInfinity PosInfinity = NaN"
| "plus_number PosInfinity y = PosInfinity"
| "plus_number x PosInfinity = PosInfinity"
| "plus_number NegInfinity y = NegInfinity"
| "plus_number x NegInfinity = NegInfinity"

text \<open>Division of a number by the length of an array, a natural number below \<open>2\<^sup>3\<^sup>2\<close>.\<close>

definition divide_by_length :: "number \<Rightarrow> nat \<Rightarrow> number" where
  "divide_by_length x n =
     (case x of
        Finite a \<Rightarrow>
          if n = 0 then (if a = 0 then NaN else if 0 < a then PosInfinity else NegInfinity)
          else fl (a / of_nat n)
      | PosInfinity \<Rightarrow> PosInfinity
      | NegInfinity \<Rightarrow> NegInfinity
      | NaN \<Rightarrow> NaN)"

text \<open>
  \<^verbatim>\<open>Math.round\<close>: the nearest integer, a tie going up; an infinity and \<^verbatim>\<open>NaN\<close> are
  returned as they are. The result is exact: a double of magnitude \<open>2\<^sup>5\<^sup>2\<close> or more is an
  integer already.
\<close>

definition Math_round :: "number \<Rightarrow> number" where
  "Math_round x = (case x of Finite a \<Rightarrow> Finite (of_int \<lfloor>a + 1 / 2\<rfloor>) | other \<Rightarrow> other)"

section \<open>Summary statistics\<close>

record stats_t =
  totalContacts :: nat
  avgScore :: number
  withCompany :: nat
  withSource :: nat

text \<open>\<^verbatim>\<open>contacts.reduce((sum, c) => sum + (c.score || 0), 0)\<close> is a left fold from 0.\<close>

definition score_total :: "contact list \<Rightarrow> number" where
  "score_total contacts =
     foldl (\<lambda>sum c. plus_number sum (Finite (score_or_0 c))) (Finite 0) contacts"

definition stats :: "contact list \<Rightarrow> stats_t" where
  "stats contacts =
     \<lparr> totalContacts = length contacts,
       avgScore = (if length contacts > 0
                   then Math_round (divide_by_length (score_total contacts) (length contacts))
                   else Finite 0),
       withCompany = length (filter (\<lambda>c. truthy_str (company_name c)) contacts),
       withSource = length (filter (\<lambda>c. truthy_str (contact_source c)) contacts) \<rparr>"

section \<open>Grouped frequency tables\<close>

text \<open>
  The three grouped tables are built the same way: an object literal \<^verbatim>\<open>{}\<close> typed
  \<^verbatim>\<open>Record<string, number>\<close>, one pass over the contacts that runs
  \<^verbatim>\<open>obj[k] = (obj[k] || 0) + 1\<close> for the contact's group name \<open>k\<close>, then \<^verbatim>\<open>Object.entries\<close>.

  The object's own properties are an association list in the order in which the keys were
  created: an existing key keeps its place, a new key goes to the end. The object is an
  ordinary one, so a key it does not own is looked up in \<^verbatim>\<open>Object.prototype\<close>. What a slot
  holds at run time is therefore a number or a string, whatever the declared type says.
\<close>

datatype jsval = Num nat | Str string

type_synonym counts = "(string \<times> jsval) list"

text \<open>
  The members every object inherits: eleven functions, and the accessor \<^verbatim>\<open>__proto__\<close>.
  Adding 1 to a function concatenates its source text with \<^verbatim>\<open>1\<close>; the text of a built-in
  function is the engine's (here in the form V8 prints it).
\<close>

definition inherited_functions :: "string list" where
  "inherited_functions =
     [''constructor'', ''__defineGetter__'', ''__defineSetter__'', ''hasOwnProperty'',
      ''__lookupGetter__'', ''__lookupSetter__'', ''isPrototypeOf'', ''propertyIsEnumerable'',
      ''toString'', ''valueOf'', ''toLocaleString'']"

definition function_text :: "string \<Rightarrow> string" where
  "function_text k =
     ''function '' @ (if k = ''constructor'' then ''Object'' else k) @ ''() { [native code] }''"

text \<open>
  \<^verbatim>\<open>(v || 0) + 1\<close> for the value \<open>v\<close> of an own property: a number is incremented (0 is
  falsy and gives \<open>0 + 1\<close>), a non-empty string gets \<^verbatim>\<open>1\<close> appended.
\<close>

definition or_0_plus_1 :: "jsval \<Rightarrow> jsval" where
  "or_0_plus_1 v =
     (case v of
        Num n \<Rightarrow> Num (n + 1)
      | Str s \<Rightarrow> if s = [] then Num (0 + 1) else Str (s @ ''1''))"

text \<open>
  \<^verbatim>\<open>obj[k] = (obj[k] || 0) + 1\<close> for a key other than \<^verbatim>\<open>__proto__\<close>. An own property is
  updated. Otherwise the read goes to the prototype: for the name of an inherited function
  it yields that function, and the assignment creates an own property holding a string; for
  any other name it yields \<^verbatim>\<open>undefined\<close>, and the own property created holds \<open>0 + 1\<close>.
\<close>

fun store_count :: "string \<Rightarrow> counts \<Rightarrow> counts" where
  "store_count k [] =
     (if k \<in> set inherited_functions then [(k, Str (function_text k @ ''1''))]
      else [(k, Num (0 + 1))])"
| "store_count k ((k', v) # rest) =
     (if k' = k then (k', or_0_plus_1 v) # rest else (k', v) # store_count k rest)"

text \<open>
  For the key \<^verbatim>\<open>__proto__\<close> the read yields the prototype object and the assignment calls
  the inherited setter with the string \<^verbatim>\<open>[object Object]1\<close>; the setter ignores a value that
  is neither an object nor \<^verbatim>\<open>null\<close>, so the object is left as it was.
\<close>

definition bump :: "string \<Rightarrow> counts \<Rightarrow> counts" where
  "bump k obj = (if k = ''__proto__'' then obj else store_count k obj)"

definition tally :: "(contact \<Rightarrow> string) \<Rightarrow> contact list \<Rightarrow> counts" where
  "tally key contacts = foldl (\<lambda>obj c. bump (key c) obj) [] contacts"

text \<open>
  \<^verbatim>\<open>Object.entries\<close> lists the keys that are array indices first (the decimal numbers
  below \<open>2\<^sup>3\<^sup>2 - 1\<close>, written without a leading zero), in ascending numeric order, and
  then every other key in creation order.
\<close>

definition is_digit :: "char \<Rightarrow> bool" where
  "is_digit c = (c \<in> set ''0123456789'')"

definition nat_of_digits :: "string \<Rightarrow> nat" where
  "nat_of_digits k = foldl (\<lambda>n c. 10 * n + (of_char c - 48)) 0 k"

definition is_array_index :: "string \<Rightarrow> bool" where
  "is_array_index k =
     (case k of
        [] \<Rightarrow> False
      | c # cs \<Rightarrow> list_all is_digit k \<and> (if c = CHR ''0'' then cs = [] else True)
                 \<and> nat_of_digits k < 4294967295)"

definition object_entries :: "(string \<times> 'v) list \<Rightarrow> (string \<times> 'v) list" where
  "object_entries obj =
     sort_key (\<lambda>(k, v). nat_of_digits k) (filter (\<lambda>(k, v). is_array_index k) obj)
     @ filter (\<lambda>(k, v). \<not> is_array_index k) obj"

text \<open>
  A point \<^verbatim>\<open>{ name, value }\<close> of a grouped table is the pair of its two fields; so is a
  point \<^verbatim>\<open>{ name, count }\<close> of the score table, whose counters are numbers throughout.
\<close>

type_synonym group_point = "string \<times> jsval"

type_synonym chart_point = "string \<times> nat"

definition source_of :: "contact \<Rightarrow> string" where
  "source_of c = or_str (contact_source c) ''Unknown''"

definition industry_of :: "contact \<Rightarrow> string" where
  "industry_of c = or_str (industry c) ''Unknown''"

definition segment_of :: "contact \<Rightarrow> string" where
  "segment_of c = or_str (segment c) ''Prospect''"

definition sourceData :: "contact list \<Rightarrow> group_point list" where
  "sourceData contacts =
     map (\<lambda>(name, value). (name, value)) (object_entries (tally source_of contacts))"

text \<open>
  \<^verbatim>\<open>.sort((a, b) => b.value - a.value)\<close>. The comparator subtracts numbers; a string that
  the counting pass stored is the text of a function followed by \<^verbatim>\<open>1\<close>s, which converts to
  \<^verbatim>\<open>NaN\<close>, and the sort reads a \<^verbatim>\<open>NaN\<close> result as \<open>+0\<close>. The sort is stable and puts \<open>a\<close>
  before \<open>b\<close> when the comparator is negative; it is modelled by insertion from the right.
  (When the comparator is not a consistent order, which takes a string among the values, the
  language leaves the resulting order to the engine.) \<^verbatim>\<open>.slice(0, 8)\<close> keeps the first
  eight.
\<close>

definition to_number :: "jsval \<Rightarrow> int option" where
  "to_number v = (case v of Num n \<Rightarrow> Some (int n) | Str s \<Rightarrow> None)"

definition by_value_desc :: "group_point \<Rightarrow> group_point \<Rightarrow> int" where
  "by_value_desc a b =
     (case to_number (snd b) of
        None \<Rightarrow> 0
      | Some y \<Rightarrow> (case to_number (snd a) of None \<Rightarrow> 0 | Some x \<Rightarrow> y - x))"

fun insert_sorted :: "('a \<Rightarrow> 'a \<Rightarrow> int) \<Rightarrow> 'a \<Rightarrow> 'a list \<Rightarrow> 'a list" where
  "insert_sorted cmp x [] = [x]"
| "insert_sorted cmp x (y # ys) =
     (if cmp x y \<le> 0 then x # y # ys else y # insert_sorted cmp x ys)"

definition sort_with :: "('a \<Rightarrow> 'a \<Rightarrow> int) \<Rightarrow> 'a list \<Rightarrow> 'a list" where
  "sort_with cmp xs = foldr (insert_sorted cmp) xs []"

definition industry_groups :: "contact list \<Rightarrow> group_point list" where
  "industry_groups contacts =
     sort_with by_value_desc
       (map (\<lambda>(name, value). (name, value)) (object_entries (tally industry_of contacts)))"

definition industryData :: "contact list \<Rightarrow> group_point list" where
  "industryData contacts = take 8 (industry_groups contacts)"

definition segmentData :: "contact list \<Rightarrow> group_point list" where
  "segmentData contacts =
     map (\<lambda>(name, value). (name, value)) (object_entries (tally segment_of contacts))"

text \<open>
  A group name is ordinary when it is not the name of an inherited member. The total of a
  table is the sum of its values when all of them are numbers.
\<close>

definition ordinary_name :: "string \<Rightarrow> bool" where
  "ordinary_name k = (k \<noteq> ''__proto__'' \<and> k \<notin> set inherited_functions)"

fun numbers :: "jsval list \<Rightarrow> nat list option" where
  "numbers [] = Some []"
| "numbers (Num n # vs) = map_option (Cons n) (numbers vs)"
| "numbers (Str s # vs) = None"

definition total_of :: "group_point list \<Rightarrow> nat option" where
  "total_of ps = map_option sum_list (numbers (map snd ps))"

text \<open>
  For the proofs: the same counting pass on a dictionary that has no inherited members and
  holds numbers only, and the sorted industry groups built from it. On ordinary names the
  object behaves like this dictionary.
\<close>

fun bump_plain :: "string \<Rightarrow> (string \<times> nat) list \<Rightarrow> (string \<times> nat) list" where
  "bump_plain k [] = [(k, 0 + 1)]"
| "bump_plain k ((k', n) # rest) =
     (if k' = k then (k', n + 1) # rest else (k', n) # bump_plain k rest)"

definition tally_plain :: "(contact \<Rightarrow> string) \<Rightarrow> contact list \<Rightarrow> (string \<times> nat) list" where
  "tally_plain key contacts = foldl (\<lambda>obj c. bump_plain (key c) obj) [] contacts"

definition groups_plain :: "contact list \<Rightarrow> (string \<times> nat) list" where
  "groups_plain contacts =
     sort_key (\<lambda>(name, value). - int value) (object_entries (tally_plain industry_of contacts))"

definition as_number :: "string \<times> nat \<Rightarrow> group_point" where
  "as_number p = (fst p, Num (snd p))"

section \<open>Score distribution\<close>

record score_range =
  range_r :: string
  min_r :: rat
  max_r :: rat
  count_r :: nat

definition ranges0 :: "score_range list" where
  "ranges0 =
     [ \<lparr> range_r = ''0-20'', min_r = 0, max_r = 20, count_r = 0 \<rparr>,
       \<lparr> range_r = ''21-40'', min_r = 21, max_r = 40, count_r = 0 \<rparr>,
       \<lparr> range_r = ''41-60'', min_r = 41, max_r = 60, count_r = 0 \<rparr>,
       \<lparr> range_r = ''61-80'', min_r = 61, max_r = 80, count_r = 0 \<rparr>,
       \<lparr> range_r = ''81-100'', min_r = 81, max_r = 100, count_r = 0 \<rparr> ]"

text \<open>
  \<^verbatim>\<open>ranges.find(r => score >= r.min && score <= r.max)\<close> returns the first matching row
  of the array itself (here: its position), or \<^verbatim>\<open>undefined\<close>; \<^verbatim>\<open>range.count++\<close> then
  updates that row in place.
\<close>

fun find_range :: "rat \<Rightarrow> score_range list \<Rightarrow> nat option" where
  "find_range s [] = None"
| "find_range s (r # rs) =
     (if s \<ge> min_r r \<and> s \<le> max_r r then Some 0
      else map_option Suc (find_range s rs))"

definition count_score :: "score_range list \<Rightarrow> contact \<Rightarrow> score_range list" where
  "count_score ranges c =
     (case find_range (score_or_0 c) ranges of
        None \<Rightarrow> ranges
      | Some i \<Rightarrow> ranges[i := (ranges ! i)\<lparr>count_r := count_r (ranges ! i) + 1\<rparr>])"

definition scoreData :: "contact list \<Rightarrow> chart_point list" where
  "scoreData contacts =
     map (\<lambda>r. (range_r r, count_r r)) (foldl count_score ranges0 contacts)"

text \<open>The number of contacts whose group name is \<open>k\<close>.\<close>

definition group_size :: "(contact \<Rightarrow> string) \<Rightarrow> contact list \<Rightarrow> string \<Rightarrow> nat" where
  "group_size key contacts k = length (filter (\<lambda>c. key c = k) contacts)"

text \<open>
  The score a contact counts with, in the words of the specification: its score, and 0 when
  the score is missing. The mean of these scores, and the number of contacts whose score
  lies between two bounds.
\<close>

definition spec_score :: "contact \<Rightarrow> rat" where
  "spec_score c = (case score c of None \<Rightarrow> 0 | Some x \<Rightarrow> x)"

definition spec_mean_score :: "contact list \<Rightarrow> rat" where
  "spec_mean_score contacts = (\<Sum>c\<leftarrow>contacts. spec_score c) / of_nat (length contacts)"

definition scores_within :: "rat \<Rightarrow> rat \<Rightarrow> contact list \<Rightarrow> nat" where
  "scores_within lo hi contacts =
     length (filter (\<lambda>c. lo \<le> spec_score c \<and> spec_score c \<le> hi) contacts)"

definition in_a_bucket :: "contact \<Rightarrow> bool" where
  "in_a_bucket c =
     (let s = spec_score c
      in (0 \<le> s \<and> s \<le> 20) \<or> (21 \<le> s \<and> s \<le> 40) \<or> (41 \<le> s \<and> s \<le> 60)
         \<or> (61 \<le> s \<and> s \<le> 80) \<or> (81 \<le> s \<and> s \<le> 100))"

text \<open>The rows of the score table when their counters hold \<open>a\<close>, \<open>b\<close>, \<open>c\<close>, \<open>d\<close>, \<open>e\<close>.\<close>

definition ranges_with :: "nat \<Rightarrow> nat \<Rightarrow> nat \<Rightarrow> nat \<Rightarrow> nat \<Rightarrow> score_range list" where
  "ranges_with a b c d e =
     [ \<lparr> range_r = ''0-20'', min_r = 0, max_r = 20, count_r = a \<rparr>,
       \<lparr> range_r = ''21-40'', min_r = 21, max_r = 40, count_r = b \<rparr>,
       \<lparr> range_r = ''41-60'', min_r = 41, max_r = 60, count_r = c \<rparr>,
       \<lparr> range_r = ''61-80'', min_r = 61, max_r = 80, count_r = d \<rparr>,
       \<lparr> range_r = ''81-100'', min_r = 81, max_r = 100, count_r = e \<rparr> ]"

section \<open>The dashboard component: state and fetch\<close>

text \<open>
  The answers of the outside world are parameters of the model. An awaited promise either
  resolves with a value or rejects with an error; the backend client resolves with a
  \<^verbatim>\<open>{ data, error }\<close> object in which either field may be \<^verbatim>\<open>null\<close>.
\<close>

type_synonym js_error = string

datatype 'a awaited = Resolved 'a | Rejected js_error

record 'd response =
  data :: "'d option"
  error :: "js_error option"

record dashboard_state =
  contacts :: "contact list"
  loading :: bool

definition initial_dashboard :: dashboard_state where
  "initial_dashboard = \<lparr> contacts = [], loading = True \<rparr>"

datatype dashboard_effect =
    SelectOrder string string string
  | ConsoleError string js_error

text \<open>
  \<^verbatim>\<open>fetchContacts\<close>: \<open>answer\<close> is what awaiting
  \<^verbatim>\<open>supabase.from('contacts').select(...).order('contact_name')\<close> gives. The result is the
  component state once the function has run to its end, and the calls it made.
\<close>

definition fetchContacts ::
  "contact list response awaited \<Rightarrow> dashboard_state \<Rightarrow> dashboard_state \<times> dashboard_effect list"
where
  "fetchContacts answer s0 =
     (let s1 = s0\<lparr>loading := True\<rparr>;
          query = SelectOrder ''contacts''
                    ''id, contact_name, company_name, contact_source, industry, region, segment, score''
                    ''contact_name''
      in case answer of
           Rejected e \<Rightarrow>
             (s1\<lparr>loading := False\<rparr>, [query, ConsoleError ''Error fetching contacts:'' e])
         | Resolved r \<Rightarrow>
             (case error r of
                Some e \<Rightarrow>
                  (s1\<lparr>loading := False\<rparr>, [query, ConsoleError ''Error fetching contacts:'' e])
              | None \<Rightarrow>
                  (s1\<lparr>contacts := (case data r of None \<Rightarrow> [] | Some rows \<Rightarrow> rows),
                      loading := False\<rparr>,
                   [query])))"

section \<open>The contacts page\<close>

text \<open>
  The state of \<^verbatim>\<open>Contacts.tsx\<close>: its five \<^verbatim>\<open>useState\<close> cells. \<^verbatim>\<open>viewMode\<close> is a string
  at run time; that it only ever holds one of the two literals of its type is a property of
  the page, proved below.
\<close>

record page_state =
  viewMode :: string
  showColumnCustomizer :: bool
  showModal :: bool
  selectedContacts :: "string list"
  refreshTrigger :: nat

definition initial_page :: page_state where
  "initial_page =
     \<lparr> viewMode = ''table'', showColumnCustomizer = False, showModal = False,
       selectedContacts = [], refreshTrigger = 0 \<rparr>"

record toast_t =
  title :: string
  description :: string
  variant :: "string option"

datatype page_effect =
    DeleteIn string string "string list"
  | LogBulkDelete string nat "string list"
  | Toast toast_t

text \<open>The decimal text of a number, as a template literal inserts it.\<close>

fun show_nat :: "nat \<Rightarrow> string" where
  "show_nat n =
     (if n < 10 then [''0123456789'' ! n]
      else show_nat (n div 10) @ [''0123456789'' ! (n mod 10)])"

declare show_nat.simps [simp del]

definition success_toast :: "nat \<Rightarrow> toast_t" where
  "success_toast n =
     \<lparr> title = ''Success'',
       description = show_nat n @ '' contacts deleted successfully'',
       variant = None \<rparr>"

definition error_toast :: toast_t where
  "error_toast =
     \<lparr> title = ''Error'', description = ''Failed to delete contacts'',
       variant = Some ''destructive'' \<rparr>"

text \<open>
  \<^verbatim>\<open>handleBulkDelete\<close>: \<open>deleted\<close> is what awaiting
  \<^verbatim>\<open>supabase.from('contacts').delete().in('id', selectedContacts)\<close> gives, \<open>logged\<close> what
  awaiting \<^verbatim>\<open>logBulkDelete(...)\<close> gives when the handler gets that far. Whatever is thrown
  inside the \<^verbatim>\<open>try\<close> block, by the \<^verbatim>\<open>throw error\<close> or by a rejected promise, ends in the
  \<^verbatim>\<open>catch\<close> block. The result is the page state after the handler and the calls it made,
  in order.
\<close>

definition handleBulkDelete ::
  "unit response awaited \<Rightarrow> unit awaited \<Rightarrow> page_state \<Rightarrow> page_state \<times> page_effect list"
where
  "handleBulkDelete deleted logged s =
     (if length (selectedContacts s) = 0 then (s, [])
      else
        let request = DeleteIn ''contacts'' ''id'' (selectedContacts s);
            audit = LogBulkDelete ''contacts'' (length (selectedContacts s)) (selectedContacts s)
        in case deleted of
             Rejected e \<Rightarrow> (s, [request, Toast error_toast])
           | Resolved r \<Rightarrow>
               (case error r of
                  Some e \<Rightarrow> (s, [request, Toast error_toast])
                | None \<Rightarrow>
                    (case logged of
                       Rejected e \<Rightarrow> (s, [request, audit, Toast error_toast])
                     | Resolved u \<Rightarrow>
                         (s\<lparr>selectedContacts := [], refreshTrigger := refreshTrigger s + 1\<rparr>,
                          [request, audit,
                           Toast (success_toast (length (selectedContacts s)))]))))"

text \<open>
  What can happen to the page: the two view buttons, the menu items, the \<^verbatim>\<open>Add Contact\<close>
  button, the setters handed to the contact table, and \<^verbatim>\<open>onRefresh\<close>, which the import
  hook may call.
\<close>

datatype page_event =
    ClickList
  | ClickAnalytics
  | ClickColumns
  | ClickAddContact
  | ClickDeleteSelected "unit response awaited" "unit awaited"
  | TableSetShowColumnCustomizer bool
  | TableSetShowModal bool
  | TableSetSelectedContacts "string list"
  | OnRefresh

fun page_step :: "page_state \<Rightarrow> page_event \<Rightarrow> page_state" where
  "page_step s ClickList = s\<lparr>viewMode := ''table''\<rparr>"
| "page_step s ClickAnalytics = s\<lparr>viewMode := ''analytics''\<rparr>"
| "page_step s ClickColumns = s\<lparr>showColumnCustomizer := True\<rparr>"
| "page_step s ClickAddContact = s\<lparr>showModal := True\<rparr>"
| "page_step s (ClickDeleteSelected deleted logged) = fst (handleBulkDelete deleted logged s)"
| "page_step s (TableSetShowColumnCustomizer b) = s\<lparr>showColumnCustomizer := b\<rparr>"
| "page_step s (TableSetShowModal b) = s\<lparr>showModal := b\<rparr>"
| "page_step s (TableSetSelectedContacts ids) = s\<lparr>selectedContacts := ids\<rparr>"
| "page_step s OnRefresh = s\<lparr>refreshTrigger := refreshTrigger s + 1\<rparr>"

definition run_page :: "page_event list \<Rightarrow> page_state" where
  "run_page events = foldl page_step initial_page events"

text \<open>The main content area: one of the two presentations, the table with its props.\<close>

datatype main_content =
    ContactAnalyticsDashboard
  | ContactTable bool bool "string list" nat

definition render_main :: "page_state \<Rightarrow> main_content" where
  "render_main s =
     (if viewMode s = ''analytics'' then ContactAnalyticsDashboard
      else ContactTable (showColumnCustomizer s) (showModal s) (selectedContacts s)
             (refreshTrigger s))"

text \<open>Which of the handler's calls are delete requests, and which are toasts.\<close>

definition is_delete_request :: "page_effect \<Rightarrow> bool" where
  "is_delete_request e = (case e of DeleteIn t col ids \<Rightarrow> True | LogBulkDelete t n ids \<Rightarrow> False | Toast t \<Rightarrow> False)"





definition is_query :: "dashboard_effect \<Rightarrow> bool" where
  "is_query e = (case e of SelectOrder t cols ord \<Rightarrow> True | ConsoleError m err \<Rightarrow> False)"

section \<open>Sample data\<close>

definition row :: "string \<Rightarrow> string option \<Rightarrow> string option \<Rightarrow> rat option \<Rightarrow> contact" where
  "row n src ind sc =
     \<lparr> id_c = n, contact_name = n, company_name = None, contact_source = src,
       industry = ind, region = None, segment = None, score = sc \<rparr>"

definition three_contacts :: "contact list" where
  "three_contacts =
     [ row ''Ann'' (Some ''Referral'') (Some ''Banking'') (Some 10),
       row ''Bob'' None (Some ''Retail'') (Some 35),
       row ''Cyd'' (Some ''Referral'') (Some ''Banking'') None ]"

definition ten_contacts :: "contact list" where
  "ten_contacts =
     [ row ''c0'' None (Some ''Automotive'') None,
       row ''c1'' None (Some ''Banking'') None,
       row ''c2'' None (Some ''Construction'') None,
       row ''c3'' None (Some ''Education'') None,
       row ''c4'' None (Some ''Energy'') None,
       row ''c5'' None (Some ''Healthcare'') None,
       row ''c6'' None (Some ''Retail'') None,
       row ''c7'' None (Some ''Software'') None,
       row ''c8'' None (Some ''Telecom'') (Some 150),
       row ''c9'' None (Some ''Telecom'') (Some (41 / 2)) ]"

definition proto_contacts :: "contact list" where
  "proto_contacts =
     [ row ''p0'' (Some ''__proto__'') (Some ''__proto__'') None,
       row ''p1'' (Some ''__proto__'') (Some ''__proto__'') None,
       row ''p2'' (Some ''__proto__'') (Some ''__proto__'') None,
       row ''p3'' (Some ''Referral'') (Some ''Retail'') None ]"

definition constructor_contacts :: "contact list" where
  "constructor_contacts =
     [ row ''k0'' None (Some ''Retail'') None,
       row ''k1'' None (Some ''constructor'') None,
       row ''k2'' None (Some ''constructor'') None ]"

text \<open>The doubles nearest to 0.1 and to 2.9, and two contacts that have them as scores.\<close>

definition double_0_1 :: rat where
  "double_0_1 = 3602879701896397 / 36028797018963968"

definition double_2_9 :: rat where
  "double_2_9 = 6530219459687219 / 2251799813685248"

definition fraction_contacts :: "contact list" where
  "fraction_contacts =
     [ row ''f0'' None None (Some double_0_1),
       row ''f1'' None None (Some double_2_9) ]"

definition selected_page :: page_state where
  "selected_page = initial_page\<lparr>selectedContacts := [''c1'', ''c2'']\<rparr>"

definition no_error :: "unit response" where
  "no_error = \<lparr> data = None, error = None \<rparr>"

section \<open>Properties of the counting pass\<close>

lemma sum_bump: "sum_list (map snd (bump_plain k obj)) = Suc (sum_list (map snd obj))"
  by (induction k obj rule: bump_plain.induct) auto

lemma sum_tally_gen:
  "sum_list (map snd (foldl (\<lambda>obj c. bump_plain (key c) obj) obj0 cs)) = sum_list (map snd obj0) + length cs"
  by (induction cs arbitrary: obj0) (auto simp: sum_bump)

lemma sum_tally: "sum_list (map snd (tally_plain key cs)) = length cs"
  by (simp add: tally_plain_def sum_tally_gen)

lemma mset_object_entries: "mset (object_entries obj) = mset obj"
  by (simp add: object_entries_def)

lemma sum_object_entries: "sum_list (map snd (object_entries obj)) = sum_list (map snd obj)"
  for obj :: "(string \<times> nat) list"
proof -
  have "mset (map snd (object_entries obj)) = mset (map snd obj)"
    by (simp add: mset_object_entries)
  then have "sum_mset (mset (map snd (object_entries obj))) = sum_mset (mset (map snd obj))" by simp
  then show ?thesis by (simp only: sum_mset_sum_list)
qed

lemma point_map_id: "map (\<lambda>(name, value). (name, value)) ps = ps"
  by (induction ps) auto

lemma keys_bump: "map fst (bump_plain k obj) = (if k \<in> set (map fst obj) then map fst obj else map fst obj @ [k])"
  by (induction k obj rule: bump_plain.induct) auto

lemma distinct_bump: "distinct (map fst obj) \<Longrightarrow> distinct (map fst (bump_plain k obj))"
  by (simp add: keys_bump)

lemma map_of_bump:
  "map_of (bump_plain k obj) = (map_of obj)(k \<mapsto> (case map_of obj k of None \<Rightarrow> 1 | Some n \<Rightarrow> n + 1))"
  by (induction k obj rule: bump_plain.induct) (auto simp: fun_eq_iff)

lemma tally_gen_props:
  "distinct (map fst obj0) \<Longrightarrow>
   distinct (map fst (foldl (\<lambda>obj c. bump_plain (key c) obj) obj0 cs)) \<and>
   map_of (foldl (\<lambda>obj c. bump_plain (key c) obj) obj0 cs) k =
     (case map_of obj0 k of
        None \<Rightarrow> if group_size key cs k = 0 then None else Some (group_size key cs k)
      | Some n \<Rightarrow> Some (n + group_size key cs k))"
proof (induction cs arbitrary: obj0)
  case Nil
  then show ?case by (simp add: group_size_def split: option.splits)
next
  case (Cons c cs)
  have d: "distinct (map fst (bump_plain (key c) obj0))" using Cons.prems by (rule distinct_bump)
  show ?case
    using Cons.IH[OF d] by (auto simp: map_of_bump group_size_def split: option.splits)
qed

lemma distinct_tally: "distinct (map fst (tally_plain key cs))"
proof -
  have "distinct (map fst ([] :: (string \<times> nat) list))" by simp
  from tally_gen_props[OF this, of key cs] show ?thesis
    unfolding tally_plain_def by (rule conjunct1)
qed

lemma map_of_tally:
  "map_of (tally_plain key cs) k = (if group_size key cs k = 0 then None else Some (group_size key cs k))"
proof -
  have "distinct (map fst ([] :: (string \<times> nat) list))" by simp
  from tally_gen_props[OF this, of key cs k]
  have "map_of (foldl (\<lambda>obj c. bump_plain (key c) obj) [] cs) k =
     (case map_of ([] :: (string \<times> nat) list) k of
        None \<Rightarrow> if group_size key cs k = 0 then None else Some (group_size key cs k)
      | Some n \<Rightarrow> Some (n + group_size key cs k))"
    by (rule conjunct2)
  also have "\<dots> = (if group_size key cs k = 0 then None else Some (group_size key cs k))"
    by simp
  finally show ?thesis unfolding tally_plain_def .
qed

lemma in_tally_iff:
  "(k, n) \<in> set (tally_plain key cs) \<longleftrightarrow> n = group_size key cs k \<and> 0 < n"
proof -
  have "(k, n) \<in> set (tally_plain key cs) \<longleftrightarrow> map_of (tally_plain key cs) k = Some n"
    using map_of_eq_Some_iff[OF distinct_tally, of key cs k n] by simp
  also have "\<dots> \<longleftrightarrow> n = group_size key cs k \<and> 0 < n"
    unfolding map_of_tally by auto
  finally show ?thesis .
qed

lemma group_size_pos_iff: "0 < group_size key cs k \<longleftrightarrow> k \<in> key ` set cs"
  by (auto simp: group_size_def filter_empty_conv)

lemma keys_tally: "set (map fst (tally_plain key cs)) = key ` set cs"
proof -
  have "k \<in> set (map fst (tally_plain key cs)) \<longleftrightarrow> k \<in> key ` set cs" for k
  proof -
    have "k \<in> set (map fst (tally_plain key cs)) \<longleftrightarrow> (\<exists>n. (k, n) \<in> set (tally_plain key cs))" by force
    also have "\<dots> \<longleftrightarrow> 0 < group_size key cs k" by (simp add: in_tally_iff)
    finally show ?thesis by (simp add: group_size_pos_iff)
  qed
  then show ?thesis by blast
qed

lemma length_tally: "length (tally_plain key cs) = card (key ` set cs)"
proof -
  have "length (tally_plain key cs) = length (map fst (tally_plain key cs))" by simp
  also have "\<dots> = card (set (map fst (tally_plain key cs)))"
    using distinct_tally[of key cs] by (simp only: distinct_card)
  finally show ?thesis by (simp only: keys_tally)
qed

lemma score_or_0_spec: "score_or_0 c = spec_score c"
  by (simp add: score_or_0_def spec_score_def split: option.splits)

lemma count_score_ranges_with:
  "count_score (ranges_with a b c d e) x =
     ranges_with (a + scores_within 0 20 [x]) (b + scores_within 21 40 [x]) (c + scores_within 41 60 [x])
       (d + scores_within 61 80 [x]) (e + scores_within 81 100 [x])"
  by (simp add: count_score_def ranges_with_def scores_within_def score_or_0_spec)

lemma scores_within_Cons:
  "scores_within lo hi (x # xs) = scores_within lo hi [x] + scores_within lo hi xs"
  by (simp add: scores_within_def)

lemma foldl_count_score_ranges_with:
  "foldl count_score (ranges_with a b c d e) cs =
     ranges_with (a + scores_within 0 20 cs) (b + scores_within 21 40 cs) (c + scores_within 41 60 cs)
       (d + scores_within 61 80 cs) (e + scores_within 81 100 cs)"
proof (induction cs arbitrary: a b c d e)
  case Nil
  show ?case by (simp add: scores_within_def)
next
  case (Cons x xs)
  show ?case
    by (simp only: foldl_Cons count_score_ranges_with Cons.IH scores_within_Cons[of _ _ x xs] add.assoc)
qed

lemma scoreData_closed:
  "scoreData cs =
     [(''0-20'', scores_within 0 20 cs), (''21-40'', scores_within 21 40 cs),
      (''41-60'', scores_within 41 60 cs), (''61-80'', scores_within 61 80 cs),
      (''81-100'', scores_within 81 100 cs)]"
proof -
  have "ranges0 = ranges_with 0 0 0 0 0" by (simp add: ranges0_def ranges_with_def)
  then have "foldl count_score ranges0 cs =
     ranges_with (scores_within 0 20 cs) (scores_within 21 40 cs) (scores_within 41 60 cs)
       (scores_within 61 80 cs) (scores_within 81 100 cs)"
    using foldl_count_score_ranges_with[of 0 0 0 0 0 cs] by simp
  then show ?thesis by (simp add: scoreData_def ranges_with_def)
qed

lemma sum_scores_within:
  "scores_within 0 20 cs + scores_within 21 40 cs + scores_within 41 60 cs
     + scores_within 61 80 cs + scores_within 81 100 cs = length (filter in_a_bucket cs)"
  by (induction cs) (auto simp: scores_within_def in_a_bucket_def Let_def)

lemma length_filter_eq_iff: "length (filter P xs) = length xs \<longleftrightarrow> (\<forall>x\<in>set xs. P x)"
proof (induction xs)
  case Nil
  show ?case by simp
next
  case (Cons x xs)
  show ?case
  proof (cases "P x")
    case True
    with Cons show ?thesis by simp
  next
    case False
    have "length (filter P xs) \<le> length xs" by simp
    then have "length (filter P xs) \<noteq> Suc (length xs)" by linarith
    with False show ?thesis by simp
  qed
qed

lemma sorted_industry_groups:
  "sorted_wrt (\<lambda>p q. snd q \<le> snd p) (groups_plain cs)"
proof -
  have "sorted (map (\<lambda>(name, value). - int value) (groups_plain cs))"
    unfolding groups_plain_def by (rule sorted_sort_key)
  then show ?thesis by (simp add: sorted_map case_prod_beta)
qed

lemma mset_industry_groups: "mset (groups_plain cs) = mset (tally_plain industry_of cs)"
  by (simp add: groups_plain_def point_map_id mset_object_entries)

lemma set_industry_groups: "set (groups_plain cs) = set (tally_plain industry_of cs)"
  using mset_industry_groups[of cs] by (rule mset_eq_setD)

lemma length_industry_groups: "length (groups_plain cs) = card (industry_of ` set cs)"
  using mset_industry_groups[of cs, THEN mset_eq_length] by (simp only: length_tally)

lemma distinct_industry_groups: "distinct (map fst (groups_plain cs))"
proof -
  have "mset (map fst (groups_plain cs)) = mset (map fst (tally_plain industry_of cs))"
    by (simp add: mset_industry_groups)
  then show ?thesis using distinct_tally[of industry_of cs] by (metis mset_eq_imp_distinct_iff)
qed

lemma sum_industry_groups: "sum_list (map snd (groups_plain cs)) = length cs"
proof -
  have "mset (map snd (groups_plain cs)) = mset (map snd (tally_plain industry_of cs))"
    by (simp add: mset_industry_groups)
  then have "sum_mset (mset (map snd (groups_plain cs))) = sum_mset (mset (map snd (tally_plain industry_of cs)))"
    by simp
  then show ?thesis by (simp only: sum_mset_sum_list sum_tally)
qed

lemma sum_take_drop: "sum_list (map snd (take n ps)) + sum_list (map snd (drop n ps)) = sum_list (map snd ps)"
  for ps :: "chart_point list"
proof -
  have "sum_list (map snd (take n ps @ drop n ps)) = sum_list (map snd ps)" by simp
  then show ?thesis by (simp only: map_append sum_list_append)
qed

section \<open>On ordinary names the object is a plain dictionary\<close>

lemma store_count_ordinary:
  "ordinary_name k \<Longrightarrow> store_count k (map as_number obj) = map as_number (bump_plain k obj)"
  by (induction k obj rule: bump_plain.induct)
     (simp_all add: ordinary_name_def as_number_def or_0_plus_1_def)

lemma bump_ordinary:
  "ordinary_name k \<Longrightarrow> bump k (map as_number obj) = map as_number (bump_plain k obj)"
  by (simp add: bump_def store_count_ordinary ordinary_name_def)

lemma foldl_bump_ordinary:
  "\<forall>c \<in> set cs. ordinary_name (key c) \<Longrightarrow>
   foldl (\<lambda>obj c. bump (key c) obj) (map as_number obj0) cs
     = map as_number (foldl (\<lambda>obj c. bump_plain (key c) obj) obj0 cs)"
  by (induction cs arbitrary: obj0) (simp_all add: bump_ordinary)

lemma tally_ordinary:
  assumes "\<forall>c \<in> set cs. ordinary_name (key c)"
  shows "tally key cs = map as_number (tally_plain key cs)"
  using foldl_bump_ordinary[OF assms, of "[]"] by (simp add: tally_def tally_plain_def)

lemma insort_key_map:
  "insort_key f (g x) (map g xs) = map g (insort_key (\<lambda>y. f (g y)) x xs)"
  by (induction xs) simp_all

lemma sort_key_map: "sort_key f (map g xs) = map g (sort_key (\<lambda>y. f (g y)) xs)"
  by (induction xs) (simp_all add: insort_key_map)

lemma object_entries_as_number:
  "object_entries (map as_number obj) = map as_number (object_entries obj)"
  by (simp add: object_entries_def filter_map sort_key_map as_number_def comp_def split_def)

lemma by_value_desc_as_number:
  "by_value_desc (as_number p) (as_number q) = int (snd q) - int (snd p)"
  by (simp add: by_value_desc_def to_number_def as_number_def)

lemma insert_sorted_as_number:
  "insert_sorted by_value_desc (as_number p) (map as_number ps)
     = map as_number (insort_key (\<lambda>(name, value). - int value) p ps)"
  by (induction ps) (simp_all add: by_value_desc_as_number split_def)

lemma sort_with_as_number:
  "sort_with by_value_desc (map as_number ps)
     = map as_number (sort_key (\<lambda>(name, value). - int value) ps)"
proof (induction ps)
  case Nil
  show ?case by (simp add: sort_with_def)
next
  case (Cons p ps)
  have "sort_with by_value_desc (map as_number (p # ps))
      = insert_sorted by_value_desc (as_number p) (sort_with by_value_desc (map as_number ps))"
    by (simp add: sort_with_def)
  also have "\<dots> = map as_number
      (insort_key (\<lambda>(name, value). - int value) p (sort_key (\<lambda>(name, value). - int value) ps))"
    unfolding Cons.IH by (rule insert_sorted_as_number)
  finally show ?case by simp
qed

lemma group_point_map_id: "map (\<lambda>(name, value). (name, value)) ps = ps"
  by (induction ps) auto

lemma table_ordinary:
  assumes "\<forall>c \<in> set cs. ordinary_name (key c)"
  shows "map (\<lambda>(name, value). (name, value)) (object_entries (tally key cs))
           = map as_number (object_entries (tally_plain key cs))"
  by (simp only: group_point_map_id tally_ordinary[OF assms] object_entries_as_number)

lemma industry_groups_ordinary:
  assumes "\<forall>c \<in> set cs. ordinary_name (industry_of c)"
  shows "industry_groups cs = map as_number (groups_plain cs)"
  unfolding industry_groups_def groups_plain_def table_ordinary[OF assms]
  by (rule sort_with_as_number)

lemma industryData_ordinary:
  assumes "\<forall>c \<in> set cs. ordinary_name (industry_of c)"
  shows "industryData cs = map as_number (take 8 (groups_plain cs))"
  by (simp add: industryData_def industry_groups_ordinary[OF assms] take_map)

lemma numbers_Num: "numbers (map Num ns) = Some ns"
  by (induction ns) simp_all

lemma total_of_as_number: "total_of (map as_number ps) = Some (sum_list (map snd ps))"
proof -
  have "map snd (map as_number ps) = map Num (map snd ps)"
    by (simp add: as_number_def comp_def)
  then have "numbers (map snd (map as_number ps)) = Some (map snd ps)"
    by (simp only: numbers_Num)
  then show ?thesis unfolding total_of_def by simp
qed

lemma total_of_table_ordinary:
  assumes "\<forall>c \<in> set cs. ordinary_name (key c)"
  shows "total_of (map (\<lambda>(name, value). (name, value)) (object_entries (tally key cs)))
           = Some (length cs)"
  by (simp only: table_ordinary[OF assms] total_of_as_number sum_object_entries sum_tally)

section \<open>Rounding to a double\<close>

lemma two_powi_pos: "0 < (2::rat) powi e"
  by simp

lemma two_powi_add: "(2::rat) powi (a + b) = 2 powi a * 2 powi b"
  by (simp add: power_int_add)

lemma two_powi_diff: "(2::rat) powi (a - b) = 2 powi a / 2 powi b"
  by (simp add: power_int_diff)

lemma two_powi_mono: "a \<le> b \<Longrightarrow> (2::rat) powi a \<le> 2 powi b"
  by (rule power_int_increasing) simp_all

lemma two_powi_strict_mono: "a < b \<Longrightarrow> (2::rat) powi a < 2 powi b"
  by (rule power_int_strict_increasing) simp_all

lemma two_powi_less_imp: "(2::rat) powi a < 2 powi b \<Longrightarrow> a < b"
  using two_powi_mono[of b a] by (cases "a < b") simp_all

lemma ilog2_bounds:
  assumes "0 < x"
  shows "2 powi ilog2 x \<le> x" and "x < 2 powi (ilog2 x + 1)"
proof -
  obtain p q where pq: "quotient_of x = (p, q)" by (cases "quotient_of x")
  have q: "0 < q" using pq by (rule quotient_of_denom_pos)
  have x: "x = of_int p / of_int q" using pq by (rule quotient_of_div)
  have p: "0 < p" using assms q unfolding x by (simp add: zero_less_divide_iff)
  define fp where "fp = floorlog 2 (nat p)"
  define fq where "fq = floorlog 2 (nat q)"
  define d where "d = int fp - int fq"
  have bp: "2 ^ (fp - 1) \<le> nat p \<and> nat p < 2 ^ fp"
    unfolding fp_def using p by (intro floorlog_bounds) simp_all
  have bq: "2 ^ (fq - 1) \<le> nat q \<and> nat q < 2 ^ fq"
    unfolding fq_def using q by (intro floorlog_bounds) simp_all
  have fp1: "1 \<le> fp" using bp p by (cases fp) simp_all
  have fq1: "1 \<le> fq" using bq q by (cases fq) simp_all
  have pu: "(of_int p :: rat) < 2 ^ fp"
  proof -
    have "p < 2 ^ fp" using bp p by (simp add: nat_less_iff)
    then have "(of_int p :: rat) < of_int (2 ^ fp)" by (simp only: of_int_less_iff)
    then show ?thesis by simp
  qed
  have pl: "(2::rat) ^ (fp - 1) \<le> of_int p"
  proof -
    have "2 ^ (fp - 1) \<le> p" using bp p by (simp add: nat_le_iff le_nat_iff)
    then have "(of_int (2 ^ (fp - 1)) :: rat) \<le> of_int p" by (simp only: of_int_le_iff)
    then show ?thesis by simp
  qed
  have qu: "(of_int q :: rat) < 2 ^ fq"
  proof -
    have "q < 2 ^ fq" using bq q by (simp add: nat_less_iff)
    then have "(of_int q :: rat) < of_int (2 ^ fq)" by (simp only: of_int_less_iff)
    then show ?thesis by simp
  qed
  have ql: "(2::rat) ^ (fq - 1) \<le> of_int q"
  proof -
    have "2 ^ (fq - 1) \<le> q" using bq q by (simp add: nat_le_iff le_nat_iff)
    then have "(of_int (2 ^ (fq - 1)) :: rat) \<le> of_int q" by (simp only: of_int_le_iff)
    then show ?thesis by simp
  qed
  have qpos: "(0::rat) < of_int q" using q by simp
  have ppos: "(0::rat) < of_int p" using p by simp
  have up: "x < 2 powi (d + 1)"
  proof -
    have "(2::rat) powi (d + 1) = 2 ^ fp / 2 ^ (fq - 1)"
    proof -
      have "d + 1 = int fp - int (fq - 1)" unfolding d_def using fq1 by simp
      then show ?thesis by (simp only: two_powi_diff power_int_of_nat)
    qed
    moreover have "x < 2 ^ fp / 2 ^ (fq - 1)"
    proof -
      have "x \<le> of_int p / 2 ^ (fq - 1)"
        unfolding x using ql ppos qpos by (intro divide_left_mono) (simp_all add: mult_pos_pos)
      also have "\<dots> < 2 ^ fp / 2 ^ (fq - 1)"
        using pu by (intro divide_strict_right_mono) simp_all
      finally show ?thesis .
    qed
    ultimately show ?thesis by simp
  qed
  have lo: "2 powi (d - 1) < x"
  proof -
    have "(2::rat) powi (d - 1) = 2 ^ (fp - 1) / 2 ^ fq"
    proof -
      have "d - 1 = int (fp - 1) - int fq" unfolding d_def using fp1 by simp
      then show ?thesis by (simp only: two_powi_diff power_int_of_nat)
    qed
    moreover have "2 ^ (fp - 1) / 2 ^ fq < x"
    proof -
      have "(2::rat) ^ (fp - 1) / 2 ^ fq < 2 ^ (fp - 1) / of_int q"
        using qu qpos by (intro divide_strict_left_mono) (simp_all add: mult_pos_pos)
      also have "\<dots> \<le> x"
        unfolding x using pl qpos by (intro divide_right_mono) simp_all
      finally show ?thesis .
    qed
    ultimately show ?thesis by simp
  qed
  have e: "ilog2 x = (if 2 powi d \<le> x then d else d - 1)"
    unfolding ilog2_def Let_def d_def fp_def fq_def pq by simp
  show "2 powi ilog2 x \<le> x"
    unfolding e using lo by (cases "2 powi d \<le> x") simp_all
  show "x < 2 powi (ilog2 x + 1)"
    unfolding e using up by (cases "2 powi d \<le> x") simp_all
qed

lemma ilog2_unique:
  assumes "0 < x" and "2 powi e \<le> x" and "x < 2 powi (e + 1)"
  shows "ilog2 x = e"
proof -
  have "2 powi ilog2 x < (2::rat) powi (e + 1)"
    using ilog2_bounds(1)[OF assms(1)] assms(3) by linarith
  then have a: "ilog2 x < e + 1" by (rule two_powi_less_imp)
  have "2 powi e < (2::rat) powi (ilog2 x + 1)"
    using ilog2_bounds(2)[OF assms(1)] assms(2) by linarith
  then have b: "e < ilog2 x + 1" by (rule two_powi_less_imp)
  from a b show ?thesis by linarith
qed

lemma round_half_even_error: "\<bar>of_int (round_half_even y) - y\<bar> \<le> 1 / 2"
proof -
  have f: "of_int \<lfloor>y\<rfloor> \<le> y" "y < of_int \<lfloor>y\<rfloor> + 1"
    using floor_correct[of y] by simp_all
  show ?thesis
    unfolding round_half_even_def Let_def using f by (auto simp: abs_le_iff)
qed

lemma round_half_even_of_int: "round_half_even (of_int k) = k"
  by (simp add: round_half_even_def)

lemma round_half_even_mono_bounds:
  assumes "of_int a \<le> y" and "y \<le> of_int b"
  shows "a \<le> round_half_even y" and "round_half_even y \<le> b"
proof -
  have f1: "a \<le> \<lfloor>y\<rfloor>" using assms(1) by (simp add: le_floor_iff)
  have f2: "\<lfloor>y\<rfloor> \<le> b" using assms(2) by (simp add: floor_le_iff)
  show "a \<le> round_half_even y"
    unfolding round_half_even_def Let_def using f1 by auto
  have "round_half_even y \<le> b" if "\<lfloor>y\<rfloor> = b"
  proof -
    have "y = of_int b" using that assms(2) of_int_floor_le[of y] by simp
    then show ?thesis by (simp add: round_half_even_of_int)
  qed
  moreover have "round_half_even y \<le> b" if "\<lfloor>y\<rfloor> \<noteq> b"
  proof -
    have "\<lfloor>y\<rfloor> + 1 \<le> b" using that f2 by linarith
    then show ?thesis unfolding round_half_even_def Let_def by auto
  qed
  ultimately show "round_half_even y \<le> b" by blast
qed

lemma fl_exact:
  assumes "x \<noteq> 0"
    and "\<bar>x\<bar> = of_int k * 2 powi (max (ilog2 \<bar>x\<bar> - 52) (- 1074))"
    and "\<bar>x\<bar> < 2 powi 1024"
  shows "fl x = Finite x"
proof -
  define E where "E = max (ilog2 \<bar>x\<bar> - 52) (- 1074)"
  have t: "\<bar>x\<bar> / 2 powi E = of_int k"
    using assms(2) unfolding E_def[symmetric] by simp
  have y: "of_int (round_half_even (\<bar>x\<bar> / 2 powi E)) * 2 powi E = \<bar>x\<bar>"
    unfolding t round_half_even_of_int using assms(2) unfolding E_def[symmetric] by simp
  have s: "sgn x * \<bar>x\<bar> = x" by (simp add: sgn_mult_abs)
  show ?thesis
    unfolding fl_def Let_def E_def[symmetric] y using assms(1,3) s by simp
qed

lemma fl_half_integer:
  assumes "\<bar>j\<bar> < 2 ^ 53"
  shows "fl (of_int j / 2) = Finite (of_int j / 2)"
proof (cases "j = 0")
  case True
  then show ?thesis by (simp add: fl_def)
next
  case False
  define x :: rat where "x = of_int j / 2"
  define e where "e = ilog2 \<bar>x\<bar>"
  have ax: "\<bar>x\<bar> = of_int \<bar>j\<bar> / 2" unfolding x_def by simp
  have j1: "1 \<le> \<bar>j\<bar>" using False by simp
  then have "(1::rat) \<le> of_int \<bar>j\<bar>" by (simp only: of_int_1_le_iff)
  then have lo: "2 powi (- 1) \<le> \<bar>x\<bar>" unfolding ax by simp
  have "(of_int \<bar>j\<bar> :: rat) < of_int (2 ^ 53)" using assms by (simp only: of_int_less_iff)
  then have hi: "\<bar>x\<bar> < 2 powi 52" unfolding ax by simp
  have xpos: "0 < \<bar>x\<bar>" using lo two_powi_pos[of "- 1"] by linarith
  have "2 powi e < (2::rat) powi 52"
    using ilog2_bounds(1)[OF xpos] hi unfolding e_def by linarith
  then have e_hi: "e < 52" by (rule two_powi_less_imp)
  have "2 powi (- 1) < (2::rat) powi (e + 1)"
    using ilog2_bounds(2)[OF xpos] lo unfolding e_def by linarith
  then have e_lo: "- 1 < e + 1" by (rule two_powi_less_imp)
  define E where "E = e - 52"
  have E: "max (ilog2 \<bar>x\<bar> - 52) (- 1074) = E"
    unfolding E_def e_def[symmetric] using e_lo by simp
  have En: "0 \<le> - 1 - E" unfolding E_def using e_hi by simp
  have "(2::rat) powi (- 1) = 2 powi (- 1 - E) * 2 powi E"
    unfolding two_powi_add[symmetric] by simp
  also have "(2::rat) powi (- 1 - E) = of_int (2 ^ nat (- 1 - E))"
    using En by (simp add: power_int_def)
  finally have h: "(2::rat) powi (- 1) = of_int (2 ^ nat (- 1 - E)) * 2 powi E" .
  have "\<bar>x\<bar> = of_int \<bar>j\<bar> * 2 powi (- 1)" unfolding ax by simp
  also have "\<dots> = of_int (\<bar>j\<bar> * 2 ^ nat (- 1 - E)) * 2 powi E"
    unfolding h by simp
  finally have k: "\<bar>x\<bar> = of_int (\<bar>j\<bar> * 2 ^ nat (- 1 - E)) * 2 powi (max (ilog2 \<bar>x\<bar> - 52) (- 1074))"
    unfolding E .
  have big: "\<bar>x\<bar> < 2 powi 1024"
    using hi two_powi_strict_mono[of 52 1024] by linarith
  have "x \<noteq> 0" using xpos by simp
  from fl_exact[OF this k big] show ?thesis unfolding x_def .
qed

lemma fl_integer:
  assumes "\<bar>j\<bar> < 2 ^ 52"
  shows "fl (of_int j) = Finite (of_int j)"
proof -
  have "\<bar>2 * j\<bar> < 2 ^ 53" using assms by simp
  from fl_half_integer[OF this] show ?thesis by simp
qed

lemma fl_error:
  assumes "2 powi (- 1022) \<le> \<bar>x\<bar>" and "\<bar>x\<bar> < 2 powi 1023"
  shows "\<exists>y. fl x = Finite y \<and> \<bar>y - x\<bar> \<le> \<bar>x\<bar> / 2 ^ 53"
proof -
  define e where "e = ilog2 \<bar>x\<bar>"
  have xpos: "0 < \<bar>x\<bar>" using assms(1) two_powi_pos[of "- 1022"] by linarith
  then have x0: "x \<noteq> 0" by simp
  have el: "2 powi e \<le> \<bar>x\<bar>" and eu: "\<bar>x\<bar> < 2 powi (e + 1)"
    unfolding e_def using ilog2_bounds[OF xpos] by simp_all
  have "2 powi (- 1022) < (2::rat) powi (e + 1)" using assms(1) eu by linarith
  then have e_lo: "- 1022 < e + 1" by (rule two_powi_less_imp)
  have "2 powi e < (2::rat) powi 1023" using assms(2) el by linarith
  then have e_hi: "e < 1023" by (rule two_powi_less_imp)
  define E where "E = e - 52"
  have E: "max (ilog2 \<bar>x\<bar> - 52) (- 1074) = E"
    unfolding E_def e_def[symmetric] using e_lo by simp
  have Epos: "0 < (2::rat) powi E" by simp
  define t :: rat where "t = \<bar>x\<bar> / 2 powi E"
  define m where "m = round_half_even t"
  have pe: "(2::rat) powi e = 2 ^ 52 * 2 powi E"
    unfolding E_def two_powi_diff by simp
  have pe1: "(2::rat) powi (e + 1) = 2 ^ 53 * 2 powi E"
    unfolding two_powi_add pe by simp
  have tx: "\<bar>x\<bar> = t * 2 powi E" unfolding t_def by simp
  have t_hi: "t \<le> of_int (2 ^ 53)"
  proof -
    have "t * 2 powi E < 2 ^ 53 * 2 powi E" using eu unfolding pe1 tx .
    then have "t < 2 ^ 53" using Epos by (simp only: mult_less_cancel_right_pos)
    then show ?thesis by simp
  qed
  have t_lo: "of_int 0 \<le> t" unfolding t_def using xpos by simp
  have m_hi: "m \<le> 2 ^ 53" unfolding m_def using round_half_even_mono_bounds(2)[OF t_lo t_hi] .
  have m_err: "\<bar>of_int m - t\<bar> \<le> 1 / 2" unfolding m_def by (rule round_half_even_error)
  define Y :: rat where "Y = of_int m * 2 powi E"
  have "Y \<le> 2 ^ 53 * 2 powi E"
  proof -
    have "(of_int m :: rat) \<le> of_int (2 ^ 53)" using m_hi by (simp only: of_int_le_iff)
    then have "(of_int m :: rat) \<le> 2 ^ 53" by simp
    then show ?thesis unfolding Y_def using Epos by (simp only: mult_le_cancel_right_pos)
  qed
  also have "\<dots> = 2 powi (e + 1)" unfolding pe1 ..
  also have "\<dots> \<le> 2 powi 1023" using e_hi by (intro two_powi_mono) simp
  also have "\<dots> < 2 powi 1024" by (intro two_powi_strict_mono) simp
  finally have Ysmall: "\<not> 2 powi 1024 \<le> Y" by simp
  have flx: "fl x = Finite (sgn x * Y)"
    unfolding fl_def Let_def E t_def[symmetric] m_def[symmetric] Y_def[symmetric]
    using x0 Ysmall by simp
  have "sgn x * (Y - \<bar>x\<bar>) = sgn x * Y - sgn x * \<bar>x\<bar>" by (simp only: right_diff_distrib)
  also have "\<dots> = sgn x * Y - x" by (simp only: sgn_mult_abs)
  finally have "\<bar>sgn x * Y - x\<bar> = \<bar>sgn x * (Y - \<bar>x\<bar>)\<bar>" by simp
  also have "\<dots> = \<bar>Y - \<bar>x\<bar>\<bar>" using x0 by (simp add: abs_mult abs_sgn_eq)
  also have "\<dots> = \<bar>of_int m - t\<bar> * 2 powi E"
  proof -
    have "Y - \<bar>x\<bar> = (of_int m - t) * 2 powi E" unfolding Y_def tx[symmetric]
      by (simp add: algebra_simps tx[symmetric])
    then show ?thesis by (simp add: abs_mult)
  qed
  also have "\<dots> \<le> (1 / 2) * 2 powi E"
    using m_err Epos by (simp only: mult_le_cancel_right_pos)
  also have "\<dots> \<le> \<bar>x\<bar> / 2 ^ 53"
  proof -
    have "2 ^ 52 * (2::rat) powi E \<le> \<bar>x\<bar>" using el unfolding pe .
    then show ?thesis by (simp add: field_simps)
  qed
  finally have "\<bar>sgn x * Y - x\<bar> \<le> \<bar>x\<bar> / 2 ^ 53" .
  with flx show ?thesis by blast
qed

lemma abs_of_int_less_2_52:
  "\<bar>(of_int j :: rat)\<bar> < 2 ^ 52 \<Longrightarrow> \<bar>j\<bar> < 2 ^ 52"
proof -
  assume "\<bar>(of_int j :: rat)\<bar> < 2 ^ 52"
  then have "(of_int \<bar>j\<bar> :: rat) < of_int (2 ^ 52)" by simp
  then show ?thesis by (simp only: of_int_less_iff)
qed

lemma foldl_plus_integers:
  assumes "\<forall>c \<in> set cs. spec_score c \<in> \<int>"
    and "\<bar>of_int a\<bar> + (\<Sum>c\<leftarrow>cs. \<bar>spec_score c\<bar>) < 2 ^ 52"
  shows "foldl (\<lambda>sum c. plus_number sum (Finite (score_or_0 c))) (Finite (of_int a)) cs
           = Finite (of_int a + (\<Sum>c\<leftarrow>cs. spec_score c))"
  using assms
proof (induction cs arbitrary: a)
  case Nil
  show ?case by simp
next
  case (Cons c cs)
  from Cons.prems(1) obtain j where j: "spec_score c = of_int j" by (auto elim: Ints_cases)
  have rest_nonneg: "0 \<le> (\<Sum>c\<leftarrow>cs. \<bar>spec_score c\<bar>)" by (rule sum_list_nonneg) auto
  have b: "\<bar>of_int a\<bar> + \<bar>of_int j\<bar> + (\<Sum>c\<leftarrow>cs. \<bar>spec_score c\<bar>) < (2::rat) ^ 52"
    using Cons.prems(2) unfolding j[symmetric] by simp
  have "\<bar>(of_int (a + j) :: rat)\<bar> \<le> \<bar>of_int a\<bar> + \<bar>of_int j\<bar>" by simp
  with b rest_nonneg have small: "\<bar>(of_int (a + j) :: rat)\<bar> < 2 ^ 52" by linarith
  then have "\<bar>a + j\<bar> < 2 ^ 52" by (rule abs_of_int_less_2_52)
  then have f: "fl (of_int (a + j)) = Finite (of_int (a + j))" by (rule fl_integer)
  have step: "plus_number (Finite (of_int a)) (Finite (score_or_0 c)) = Finite (of_int (a + j))"
    unfolding score_or_0_spec j using f by simp
  have ints: "\<forall>c \<in> set cs. spec_score c \<in> \<int>" using Cons.prems(1) by simp
  have b': "\<bar>of_int (a + j)\<bar> + (\<Sum>c\<leftarrow>cs. \<bar>spec_score c\<bar>) < (2::rat) ^ 52"
    using b by (simp add: abs_le_iff)
  have "foldl (\<lambda>sum c. plus_number sum (Finite (score_or_0 c))) (Finite (of_int a)) (c # cs)
      = foldl (\<lambda>sum c. plus_number sum (Finite (score_or_0 c))) (Finite (of_int (a + j))) cs"
    by (simp only: foldl_Cons step)
  also have "\<dots> = Finite (of_int (a + j) + (\<Sum>c\<leftarrow>cs. spec_score c))"
    using ints b' by (rule Cons.IH)
  finally show ?case by (simp add: j)
qed

lemma score_total_integers:
  assumes "\<forall>c \<in> set cs. spec_score c \<in> \<int>"
    and "(\<Sum>c\<leftarrow>cs. \<bar>spec_score c\<bar>) < 2 ^ 52"
  shows "score_total cs = Finite (\<Sum>c\<leftarrow>cs. spec_score c)"
  using foldl_plus_integers[of cs 0] assms by (simp add: score_total_def)

lemma sum_list_Ints: "\<forall>c \<in> set cs. f c \<in> \<int> \<Longrightarrow> (\<Sum>c\<leftarrow>cs. f c) \<in> (\<int> :: rat set)"
  by (induction cs) simp_all

lemma abs_sum_list_le: "\<bar>\<Sum>c\<leftarrow>cs. f c\<bar> \<le> (\<Sum>c\<leftarrow>cs. \<bar>f c :: rat\<bar>)"
  by (induction cs) (simp_all add: abs_le_iff, linarith+)

lemma round_quotient:
  fixes s :: int and n :: nat
  assumes s: "\<bar>s\<bar> < 2 ^ 52" and n0: "0 < n" and n32: "n < 2 ^ 32"
  shows "Math_round (divide_by_length (Finite (of_int s)) n)
           = Finite (of_int \<lfloor>(of_int s / of_nat n + 1 / 2 :: rat)\<rfloor>)"
proof -
  define x :: rat where "x = of_int s / of_nat n"
  define r where "r = \<lfloor>x + 1 / 2\<rfloor>"
  have npos: "(0::rat) < of_nat n" using n0 by simp
  have n1: "(1::rat) \<le> of_nat n" using n0 by simp
  have d: "divide_by_length (Finite (of_int s)) n = fl x"
    unfolding divide_by_length_def x_def using n0 by simp
  have rl: "of_int r \<le> x + 1 / 2" unfolding r_def by (rule of_int_floor_le)
  have ru: "x + 1 / 2 < of_int r + 1" unfolding r_def using floor_correct[of "x + 1 / 2"] by simp
  have sr: "\<bar>(of_int s :: rat)\<bar> < 2 ^ 52"
  proof -
    have "(of_int \<bar>s\<bar> :: rat) < of_int (2 ^ 52)" using s by (simp only: of_int_less_iff)
    then show ?thesis by simp
  qed
  have ax: "\<bar>x\<bar> = \<bar>of_int s\<bar> / of_nat n" unfolding x_def by simp
  have ax_le: "\<bar>x\<bar> \<le> \<bar>of_int s\<bar>"
    unfolding ax using n1 by (simp add: divide_le_eq mult_le_cancel_left1)
  have "\<exists>y. fl x = Finite y \<and> \<lfloor>y + 1 / 2\<rfloor> = r" if "s = 0"
  proof -
    have "x = 0" unfolding x_def using that by simp
    then have "fl x = Finite 0" and "\<lfloor>(0::rat) + 1 / 2\<rfloor> = r"
      unfolding r_def by (simp_all add: fl_def)
    then show ?thesis by blast
  qed
  moreover have "\<exists>y. fl x = Finite y \<and> \<lfloor>y + 1 / 2\<rfloor> = r" if s0: "s \<noteq> 0"
  proof (cases "x + 1 / 2 = of_int r")
    case True
    then have xh: "x = of_int (2 * r - 1) / 2" by simp
    have "\<bar>(of_int (2 * r - 1) :: rat)\<bar> = 2 * \<bar>x\<bar>" unfolding xh by simp
    also have "\<dots> < 2 ^ 53" using ax_le sr by simp
    finally have "(of_int \<bar>2 * r - 1\<bar> :: rat) < of_int (2 ^ 53)" by simp
    then have "\<bar>2 * r - 1\<bar> < 2 ^ 53" by (simp only: of_int_less_iff)
    then have "fl x = Finite x" unfolding xh by (rule fl_half_integer)
    then show ?thesis unfolding r_def by blast
  next
    case False
    with rl have gap_lo: "of_int r < x + 1 / 2" by simp
    define N where "N = 2 * s + int n - 2 * r * int n"
    have Nx: "x + 1 / 2 - of_int r = of_int N / (2 * of_nat n)"
      unfolding N_def x_def using npos by (simp add: field_simps)
    have "0 < of_int N / (2 * (of_nat n :: rat))" using gap_lo unfolding Nx[symmetric] by simp
    then have "(0::rat) < of_int N" using npos by (simp add: zero_less_divide_iff)
    then have N1: "1 \<le> N" by simp
    have "0 < (of_int (2 * int n - N) :: rat) / (2 * of_nat n)"
    proof -
      have "of_int (2 * int n - N) / (2 * of_nat n) = of_int r + 1 - (x + 1 / 2)"
        using Nx npos by (simp add: field_simps)
      then show ?thesis using ru by simp
    qed
    then have "(0::rat) < of_int (2 * int n - N)" using npos by (simp add: zero_less_divide_iff)
    then have N2: "N \<le> 2 * int n - 1" by simp
    have lo: "1 / (2 * of_nat n) \<le> x + 1 / 2 - of_int r"
    proof -
      have "(1::rat) \<le> of_int N" using N1 by simp
      then show ?thesis unfolding Nx using npos by (simp add: divide_right_mono)
    qed
    have hi: "x + 1 / 2 - of_int r \<le> 1 - 1 / (2 * of_nat n)"
    proof -
      have "(of_int N :: rat) \<le> of_int (2 * int n - 1)" using N2 by (simp only: of_int_le_iff)
      then have "(of_int N :: rat) / (2 * of_nat n) \<le> of_int (2 * int n - 1) / (2 * of_nat n)"
        using npos by (simp add: divide_right_mono)
      also have "\<dots> = 1 - 1 / (2 * of_nat n)" using npos by (simp add: field_simps)
      finally show ?thesis unfolding Nx .
    qed
    have big: "\<bar>x\<bar> < 2 powi 1023"
    proof -
      have "\<bar>x\<bar> < 2 ^ 52" using ax_le sr by linarith
      also have "(2::rat) ^ 52 = 2 powi 52" by simp
      also have "\<dots> < 2 powi 1023" by (intro two_powi_strict_mono) simp
      finally show ?thesis .
    qed
    have small: "2 powi (- 1022) \<le> \<bar>x\<bar>"
    proof -
      have "1 \<le> \<bar>s\<bar>" using s0 by simp
      then have "(1::rat) \<le> of_int \<bar>s\<bar>" by (simp only: of_int_1_le_iff)
      then have "1 / of_nat n \<le> \<bar>x\<bar>" unfolding ax using npos by (simp add: divide_right_mono)
      moreover have "(of_nat n :: rat) < of_nat (2 ^ 32)" using n32 by (simp only: of_nat_less_iff)
      then have "(1::rat) / 2 ^ 32 \<le> 1 / of_nat n" using npos by (simp add: field_simps)
      moreover have "(2::rat) powi (- 1022) \<le> 2 powi (- 32)" by (intro two_powi_mono) simp
      moreover have "(2::rat) powi (- 32) = 1 / 2 ^ 32" by (simp add: power_int_minus field_simps)
      ultimately show ?thesis by linarith
    qed
    from fl_error[OF small big] obtain y where y: "fl x = Finite y"
      and err: "\<bar>y - x\<bar> \<le> \<bar>x\<bar> / 2 ^ 53" by blast
    have "\<bar>x\<bar> / 2 ^ 53 < 1 / (2 * of_nat n)"
    proof -
      have "\<bar>x\<bar> * of_nat n = \<bar>of_int s\<bar>" unfolding ax using npos by simp
      then have "\<bar>x\<bar> * of_nat n < 2 ^ 52" using sr by simp
      then show ?thesis using npos by (simp add: field_simps)
    qed
    with err have e: "\<bar>y - x\<bar> < 1 / (2 * of_nat n)" by linarith
    have "of_int r \<le> y + 1 / 2" using e lo by linarith
    moreover have "y + 1 / 2 < of_int r + 1" using e hi by linarith
    ultimately have "\<lfloor>y + 1 / 2\<rfloor> = r" by (simp add: floor_unique)
    with y show ?thesis by blast
  qed
  ultimately obtain y where "fl x = Finite y" and "\<lfloor>y + 1 / 2\<rfloor> = r" by blast
  then show ?thesis unfolding d Math_round_def r_def x_def by simp
qed

lemma fl_eval:
  assumes "0 < x" and "2 powi e \<le> x" and "x < 2 powi (e + 1)" and "- 1022 \<le> e"
    and "round_half_even (x / 2 powi (e - 52)) = m"
    and "(of_int m * 2 powi (e - 52) :: rat) < 2 powi 1024"
  shows "fl x = Finite (of_int m * 2 powi (e - 52))"
proof -
  have a: "\<bar>x\<bar> = x" using assms(1) by simp
  have e: "ilog2 x = e" using assms(1-3) by (rule ilog2_unique)
  have E: "max (e - 52) (- 1074) = e - 52" using assms(4) by simp
  have sg: "sgn x = 1" using assms(1) by simp
  show ?thesis
    unfolding fl_def Let_def a e E assms(5) sg using assms(1,6) by simp
qed

lemma floor_rat_numeral_div: "\<lfloor>(numeral a / numeral b :: rat)\<rfloor> = numeral a div numeral b"
  by (metis floor_divide_of_int_eq of_int_numeral)

lemma fl_double_0_1: "fl double_0_1 = Finite double_0_1"
proof -
  have r: "round_half_even (double_0_1 / 2 powi (- 4 - 52)) = 7205759403792794"
    by (simp add: double_0_1_def round_half_even_def)
  have "fl double_0_1 = Finite (of_int 7205759403792794 * 2 powi (- 4 - 52))"
    by (rule fl_eval[OF _ _ _ _ r]) (simp_all add: double_0_1_def)
  also have "of_int 7205759403792794 * 2 powi (- 4 - 52) = double_0_1"
    by (simp add: double_0_1_def)
  finally show ?thesis .
qed

lemma fl_double_2_9: "fl double_2_9 = Finite double_2_9"
proof -
  have r: "round_half_even (double_2_9 / 2 powi (1 - 52)) = 6530219459687219"
    by (simp add: double_2_9_def round_half_even_def)
  have "fl double_2_9 = Finite (of_int 6530219459687219 * 2 powi (1 - 52))"
    by (rule fl_eval[OF _ _ _ _ r]) (simp_all add: double_2_9_def)
  also have "of_int 6530219459687219 * 2 powi (1 - 52) = double_2_9"
    by (simp add: double_2_9_def)
  finally show ?thesis .
qed

lemma fl_sum_0_1_2_9: "fl (double_0_1 + double_2_9) = Finite 3"
proof -
  have x: "double_0_1 + double_2_9 = 108086391056891901 / 36028797018963968"
    by (simp add: double_0_1_def double_2_9_def)
  have q: "(108086391056891901 / 36028797018963968 :: rat) / 2 powi (1 - 52)
      = 108086391056891901 / 16"
    by simp
  have r: "round_half_even ((108086391056891901 / 36028797018963968) / 2 powi (1 - 52))
      = 6755399441055744"
    unfolding q by (simp add: round_half_even_def floor_rat_numeral_div)
  have "fl (108086391056891901 / 36028797018963968)
      = Finite (of_int 6755399441055744 * 2 powi (1 - 52))"
    by (rule fl_eval[OF _ _ _ _ r]) simp_all
  also have "of_int 6755399441055744 * 2 powi (1 - 52) = (3::rat)" by simp
  finally show ?thesis unfolding x .
qed

lemma avgScore_fraction_contacts: "avgScore (stats fraction_contacts) = Finite 2"
proof -
  have n0: "double_0_1 \<noteq> 0" "double_2_9 \<noteq> 0" by (simp_all add: double_0_1_def double_2_9_def)
  have t: "score_total fraction_contacts = Finite 3"
    using n0 by (simp add: score_total_def fraction_contacts_def row_def score_or_0_def
          fl_double_0_1 fl_sum_0_1_2_9)
  have "\<bar>3::int\<bar> < 2 ^ 53" by simp
  from fl_half_integer[OF this] have h: "fl (3 / 2) = Finite (3 / 2)" by simp
  have l: "length fraction_contacts = 2" by (simp add: fraction_contacts_def)
  show ?thesis
    by (simp add: stats_def t l divide_by_length_def h Math_round_def)
qed

section \<open>Evaluation on sample data\<close>

lemmas sample_defs = row_def three_contacts_def ten_contacts_def proto_contacts_def
  constructor_contacts_def

lemmas eval_defs = industryData_def industry_groups_def sort_with_def by_value_desc_def
  to_number_def object_entries_def tally_def bump_def inherited_functions_def function_text_def
  or_0_plus_1_def industry_of_def source_of_def segment_of_def or_str_def is_array_index_def
  is_digit_def nat_of_digits_def sourceData_def segmentData_def total_of_def scoreData_def
  ranges0_def count_score_def score_or_0_def

section \<open>The score distribution\<close>

text \<open>
  C9: for every list of contacts, \<open>scoreData\<close> is the five rows \<open>0-20\<close>, \<open>21-40\<close>, \<open>41-60\<close>,
  \<open>61-80\<close>, \<open>81-100\<close>, in this order, and the count of a row is the number of contacts whose
  score (0 when missing) lies between the row's bounds, both included. The counts add up to
  the number of contacts whose score lies in one of the five ranges: a contact whose score
  is below 0, above 100, or strictly between two neighbouring ranges (such as 20.5) changes
  no count.
\<close>

theorem scoreData_buckets:
  "scoreData cs =
     [(''0-20'', scores_within 0 20 cs), (''21-40'', scores_within 21 40 cs),
      (''41-60'', scores_within 41 60 cs), (''61-80'', scores_within 61 80 cs),
      (''81-100'', scores_within 81 100 cs)]
   \<and> sum_list (map snd (scoreData cs)) = length (filter in_a_bucket cs)
   \<and> (spec_score c < 0 \<or> 100 < spec_score c
        \<or> (20 < spec_score c \<and> spec_score c < 21) \<or> (40 < spec_score c \<and> spec_score c < 41)
        \<or> (60 < spec_score c \<and> spec_score c < 61) \<or> (80 < spec_score c \<and> spec_score c < 81)
      \<longrightarrow> scoreData (cs @ [c]) = scoreData cs)"
proof (intro conjI impI)
  show "scoreData cs =
     [(''0-20'', scores_within 0 20 cs), (''21-40'', scores_within 21 40 cs),
      (''41-60'', scores_within 41 60 cs), (''61-80'', scores_within 61 80 cs),
      (''81-100'', scores_within 81 100 cs)]"
    by (rule scoreData_closed)
  show "sum_list (map snd (scoreData cs)) = length (filter in_a_bucket cs)"
    using sum_scores_within[of cs] by (simp add: scoreData_closed)
next
  assume out: "spec_score c < 0 \<or> 100 < spec_score c
        \<or> (20 < spec_score c \<and> spec_score c < 21) \<or> (40 < spec_score c \<and> spec_score c < 41)
        \<or> (60 < spec_score c \<and> spec_score c < 61) \<or> (80 < spec_score c \<and> spec_score c < 81)"
  have "scores_within lo hi (cs @ [c]) = scores_within lo hi cs"
    if "\<not> (lo \<le> spec_score c \<and> spec_score c \<le> hi)" for lo hi
    using that by (simp add: scores_within_def)
  with out show "scoreData (cs @ [c]) = scoreData cs"
    unfolding scoreData_closed by auto
qed

theorem scoreData_buckets_witness:
  "spec_score (row ''c9'' None (Some ''Telecom'') (Some (41 / 2))) = 41 / 2
   \<and> scoreData (ten_contacts @ [row ''c9'' None (Some ''Telecom'') (Some (41 / 2))]) = scoreData ten_contacts
   \<and> scoreData ten_contacts =
       [(''0-20'', 8), (''21-40'', 0), (''41-60'', 0), (''61-80'', 0), (''81-100'', 0)]
   \<and> length (filter in_a_bucket ten_contacts) = 8"
proof -
  have s: "spec_score (row ''c9'' None (Some ''Telecom'') (Some (41 / 2))) = 41 / 2"
    by (simp add: spec_score_def row_def)
  have w: "scores_within 0 20 ten_contacts = 8" "scores_within 21 40 ten_contacts = 0"
    "scores_within 41 60 ten_contacts = 0" "scores_within 61 80 ten_contacts = 0"
    "scores_within 81 100 ten_contacts = 0"
    by (simp_all add: scores_within_def spec_score_def sample_defs)
  let ?c = "row ''c9'' None (Some ''Telecom'') (Some (41 / 2))"
  note T = scoreData_buckets[of ten_contacts ?c]
  have c1: "scoreData ten_contacts =
       [(''0-20'', 8), (''21-40'', 0), (''41-60'', 0), (''61-80'', 0), (''81-100'', 0)]"
    using T[THEN conjunct1] unfolding w .
  have "length (filter in_a_bucket ten_contacts) = sum_list (map snd (scoreData ten_contacts))"
    using T[THEN conjunct2, THEN conjunct1] by (rule sym)
  also have "\<dots> = 8" unfolding c1 by simp
  finally have c2: "length (filter in_a_bucket ten_contacts) = 8" .
  have out: "spec_score ?c < 0 \<or> 100 < spec_score ?c
        \<or> (20 < spec_score ?c \<and> spec_score ?c < 21) \<or> (40 < spec_score ?c \<and> spec_score ?c < 41)
        \<or> (60 < spec_score ?c \<and> spec_score ?c < 61) \<or> (80 < spec_score ?c \<and> spec_score ?c < 81)"
    unfolding s by simp
  have c3: "scoreData (ten_contacts @ [?c]) = scoreData ten_contacts"
    using T[THEN conjunct2, THEN conjunct2, THEN mp, OF out] .
  from s c1 c2 c3 show ?thesis by blast
qed

section \<open>The summary average\<close>

lemma nearest_integer:
  fixes m :: rat and k :: int
  shows "\<bar>of_int \<lfloor>m + 1 / 2\<rfloor> - m\<bar> \<le> \<bar>of_int k - m\<bar>"
proof -
  define r where "r = \<lfloor>m + 1 / 2\<rfloor>"
  have lo: "of_int r \<le> m + 1 / 2" unfolding r_def by (rule of_int_floor_le)
  have hi: "m + 1 / 2 < of_int r + 1"
    unfolding r_def using floor_correct[of "m + 1 / 2"] by simp
  consider "k < r" | "k = r" | "r < k" by linarith
  then show ?thesis
  proof cases
    case 1
    then have "k \<le> r - 1" by simp
    then have "(of_int k :: rat) \<le> of_int (r - 1)" by (simp only: of_int_le_iff)
    then have "(of_int k :: rat) \<le> of_int r - 1" by simp
    with lo hi show ?thesis unfolding r_def[symmetric] by linarith
  next
    case 2
    then show ?thesis unfolding r_def by simp
  next
    case 3
    then have "r + 1 \<le> k" by simp
    then have "(of_int (r + 1) :: rat) \<le> of_int k" by (simp only: of_int_le_iff)
    then have "(of_int r :: rat) + 1 \<le> of_int k" by simp
    with lo hi show ?thesis unfolding r_def[symmetric] by linarith
  qed
qed

lemma nearest_integer_half: "\<bar>of_int \<lfloor>m + 1 / 2\<rfloor> - m\<bar> \<le> 1 / 2" for m :: rat
proof -
  have "of_int \<lfloor>m + 1 / 2\<rfloor> \<le> m + 1 / 2" by (rule of_int_floor_le)
  moreover have "m + 1 / 2 < of_int \<lfloor>m + 1 / 2\<rfloor> + 1"
    using floor_correct[of "m + 1 / 2"] by simp
  ultimately show ?thesis by linarith
qed

lemma avgScore_integers:
  assumes ne: "cs \<noteq> []" and len: "length cs < 2 ^ 32"
    and ints: "\<forall>c \<in> set cs. spec_score c \<in> \<int>"
    and bound: "(\<Sum>c\<leftarrow>cs. \<bar>spec_score c\<bar>) < 2 ^ 52"
  shows "avgScore (stats cs) = Finite (of_int \<lfloor>spec_mean_score cs + 1 / 2\<rfloor>)"
proof -
  have "(\<Sum>c\<leftarrow>cs. spec_score c) \<in> \<int>" using ints by (rule sum_list_Ints)
  then obtain s where s: "(\<Sum>c\<leftarrow>cs. spec_score c) = of_int s" by (auto elim: Ints_cases)
  have "\<bar>(of_int s :: rat)\<bar> < 2 ^ 52"
    using abs_sum_list_le[of spec_score cs] bound unfolding s by linarith
  then have small: "\<bar>s\<bar> < 2 ^ 52" by (rule abs_of_int_less_2_52)
  have n0: "0 < length cs" using ne by simp
  have t: "score_total cs = Finite (of_int s)"
    using score_total_integers[OF ints bound] unfolding s .
  have "avgScore (stats cs) = Math_round (divide_by_length (Finite (of_int s)) (length cs))"
    using n0 by (simp add: stats_def t)
  also have "\<dots> = Finite (of_int \<lfloor>(of_int s / of_nat (length cs) + 1 / 2 :: rat)\<rfloor>)"
    using small n0 len by (rule round_quotient)
  finally show ?thesis unfolding spec_mean_score_def s .
qed

text \<open>
  C2 (as amended): the summary average \<open>avgScore\<close> is 0 for the empty list. For a non-empty
  list of fewer than \<open>2\<^sup>3\<^sup>2\<close> contacts (an array holds no more) whose scores, a missing
  score counting as 0, are integers with absolute values that sum to less than \<open>2\<^sup>5\<^sup>2\<close>,
  it is the arithmetic mean of the scores rounded to the nearest integer, a tie going up:
  it is \<open>\<lfloor>mean + 1/2\<rfloor>\<close>, which differs from the mean by at most one half and is at least as
  near to it as any integer. (For scores with a fractional part the sum and the quotient are
  rounded to doubles before \<^verbatim>\<open>Math.round\<close> is applied, and the result can be another
  integer.)
\<close>

theorem avgScore_rounded_mean:
  "avgScore (stats []) = Finite 0
   \<and> (cs \<noteq> [] \<and> length cs < 2 ^ 32 \<and> (\<forall>c \<in> set cs. spec_score c \<in> \<int>)
        \<and> (\<Sum>c\<leftarrow>cs. \<bar>spec_score c\<bar>) < 2 ^ 52 \<longrightarrow>
        avgScore (stats cs) = Finite (of_int \<lfloor>spec_mean_score cs + 1 / 2\<rfloor>)
        \<and> \<bar>of_int \<lfloor>spec_mean_score cs + 1 / 2\<rfloor> - spec_mean_score cs\<bar> \<le> 1 / 2
        \<and> (\<forall>k::int. \<bar>of_int \<lfloor>spec_mean_score cs + 1 / 2\<rfloor> - spec_mean_score cs\<bar>
                        \<le> \<bar>of_int k - spec_mean_score cs\<bar>))"
proof (intro conjI impI allI)
  show "avgScore (stats []) = Finite 0" by (simp add: stats_def)
next
  assume "cs \<noteq> [] \<and> length cs < 2 ^ 32 \<and> (\<forall>c \<in> set cs. spec_score c \<in> \<int>)
        \<and> (\<Sum>c\<leftarrow>cs. \<bar>spec_score c\<bar>) < 2 ^ 52"
  then show "avgScore (stats cs) = Finite (of_int \<lfloor>spec_mean_score cs + 1 / 2\<rfloor>)"
    by (intro avgScore_integers) simp_all
next
  show "\<bar>of_int \<lfloor>spec_mean_score cs + 1 / 2\<rfloor> - spec_mean_score cs\<bar> \<le> 1 / 2"
    by (rule nearest_integer_half)
next
  show "\<bar>of_int \<lfloor>spec_mean_score cs + 1 / 2\<rfloor> - spec_mean_score cs\<bar>
          \<le> \<bar>of_int k - spec_mean_score cs\<bar>" for k
    by (rule nearest_integer)
qed

theorem avgScore_rounded_mean_witness:
  "three_contacts \<noteq> [] \<and> length three_contacts < 2 ^ 32
   \<and> spec_score (row ''Ann'' (Some ''Referral'') (Some ''Banking'') (Some 10)) = of_int 10
   \<and> spec_score (row ''Bob'' None (Some ''Retail'') (Some 35)) = of_int 35
   \<and> spec_score (row ''Cyd'' (Some ''Referral'') (Some ''Banking'') None) = of_int 0
   \<and> (\<Sum>c\<leftarrow>three_contacts. \<bar>spec_score c\<bar>) = 45
   \<and> spec_mean_score three_contacts = 15
   \<and> avgScore (stats three_contacts) = Finite 15"
proof -
  have n: "three_contacts \<noteq> []" by (simp add: three_contacts_def)
  have l: "length three_contacts < 2 ^ 32" by (simp add: three_contacts_def)
  have sc: "spec_score (row ''Ann'' (Some ''Referral'') (Some ''Banking'') (Some 10)) = of_int 10"
    "spec_score (row ''Bob'' None (Some ''Retail'') (Some 35)) = of_int 35"
    "spec_score (row ''Cyd'' (Some ''Referral'') (Some ''Banking'') None) = of_int 0"
    by (simp_all add: spec_score_def row_def)
  have i: "\<forall>c \<in> set three_contacts. spec_score c \<in> \<int>"
    unfolding three_contacts_def by (simp only: list.set ball_simps sc Ints_of_int)
  have b: "(\<Sum>c\<leftarrow>three_contacts. \<bar>spec_score c\<bar>) = 45"
    by (simp add: three_contacts_def sc)
  then have b': "(\<Sum>c\<leftarrow>three_contacts. \<bar>spec_score c\<bar>) < 2 ^ 52" by simp
  have m: "spec_mean_score three_contacts = 15"
    by (simp add: spec_mean_score_def three_contacts_def sc)
  from n l i b' have h: "three_contacts \<noteq> [] \<and> length three_contacts < 2 ^ 32
      \<and> (\<forall>c \<in> set three_contacts. spec_score c \<in> \<int>)
      \<and> (\<Sum>c\<leftarrow>three_contacts. \<bar>spec_score c\<bar>) < 2 ^ 52" by blast
  have "avgScore (stats three_contacts)
      = Finite (of_int \<lfloor>spec_mean_score three_contacts + 1 / 2\<rfloor>)"
    using avgScore_rounded_mean[of three_contacts, THEN conjunct2, THEN mp, OF h]
    by (rule conjunct1)
  also have "\<dots> = Finite 15" unfolding m by (simp add: floor_rat_numeral_div)
  finally have a: "avgScore (stats three_contacts) = Finite 15" .
  from n l sc b m a show ?thesis by blast
qed

theorem avgScore_rounded_mean_counterexample:
  "fl double_0_1 = Finite double_0_1 \<and> fl double_2_9 = Finite double_2_9
   \<and> avgScore (stats fraction_contacts) = Finite 2
   \<and> spec_mean_score fraction_contacts = 108086391056891901 / 72057594037927936
   \<and> \<not> \<bar>2 - spec_mean_score fraction_contacts\<bar> \<le> 1 / 2
   \<and> \<bar>1 - spec_mean_score fraction_contacts\<bar> < 1 / 2"
proof -
  have m: "spec_mean_score fraction_contacts = 108086391056891901 / 72057594037927936"
    by (simp add: spec_mean_score_def spec_score_def fraction_contacts_def row_def
          double_0_1_def double_2_9_def)
  have a: "\<not> \<bar>2 - (108086391056891901 / 72057594037927936 :: rat)\<bar> \<le> 1 / 2" by simp
  have b: "\<bar>1 - (108086391056891901 / 72057594037927936 :: rat)\<bar> < 1 / 2" by simp
  from fl_double_0_1 fl_double_2_9 avgScore_fraction_contacts m a b show ?thesis by simp
qed

section \<open>The industry distribution\<close>

lemma in_groups_plain_iff:
  "(k, n) \<in> set (groups_plain cs) \<longleftrightarrow> n = group_size industry_of cs k \<and> 0 < n"
  by (simp only: set_industry_groups in_tally_iff)

lemma top8_plain:
  "length (take 8 (groups_plain cs)) = min 8 (card (industry_of ` set cs))
   \<and> sorted_wrt (\<lambda>p q. snd q \<le> snd p) (take 8 (groups_plain cs))
   \<and> distinct (map fst (take 8 (groups_plain cs)))
   \<and> (\<forall>(k, n) \<in> set (take 8 (groups_plain cs)). n = group_size industry_of cs k \<and> 0 < n)
   \<and> (\<forall>k \<in> industry_of ` set cs.
         k \<notin> fst ` set (take 8 (groups_plain cs)) \<longrightarrow>
           length (take 8 (groups_plain cs)) = 8
           \<and> (\<forall>(k', n') \<in> set (take 8 (groups_plain cs)). group_size industry_of cs k \<le> n'))"
proof (intro conjI ballI impI)
  show "length (take 8 (groups_plain cs)) = min 8 (card (industry_of ` set cs))"
    by (simp add: length_industry_groups min.commute)
  show "sorted_wrt (\<lambda>p q. snd q \<le> snd p) (take 8 (groups_plain cs))"
    using sorted_industry_groups by (rule sorted_wrt_take)
  show "distinct (map fst (take 8 (groups_plain cs)))"
    unfolding take_map[symmetric]
    using distinct_industry_groups by (rule distinct_take)
next
  fix p assume "p \<in> set (take 8 (groups_plain cs))"
  then have "p \<in> set (groups_plain cs)" by (rule in_set_takeD)
  then have "(fst p, snd p) \<in> set (groups_plain cs)" by simp
  then have "snd p = group_size industry_of cs (fst p) \<and> 0 < snd p"
    using in_groups_plain_iff[of "fst p" "snd p" cs] by blast
  then show "case p of (k, n) \<Rightarrow> n = group_size industry_of cs k \<and> 0 < n"
    by (simp add: case_prod_beta)
next
  fix k assume k: "k \<in> industry_of ` set cs"
    and out: "k \<notin> fst ` set (take 8 (groups_plain cs))"
  let ?G = "groups_plain cs"
  let ?n = "group_size industry_of cs k"
  from k have "0 < ?n" by (simp add: group_size_pos_iff)
  then have inG: "(k, ?n) \<in> set ?G" by (simp add: in_groups_plain_iff)
  have split: "?G = take 8 ?G @ drop 8 ?G" by simp
  from out have "(k, ?n) \<notin> set (take 8 ?G)" by force
  with inG split have inD: "(k, ?n) \<in> set (drop 8 ?G)"
    by (metis Un_iff set_append)
  then have "drop 8 ?G \<noteq> []" by auto
  then have "8 < length ?G" by simp
  then show "length (take 8 ?G) = 8" by simp
  have "sorted_wrt (\<lambda>p q. snd q \<le> snd p) (take 8 ?G @ drop 8 ?G)"
    using sorted_industry_groups[of cs] by simp
  then have "\<forall>p \<in> set (take 8 ?G). \<forall>q \<in> set (drop 8 ?G). snd q \<le> snd p"
    unfolding sorted_wrt_append by blast
  with inD have "\<forall>p \<in> set (take 8 ?G). ?n \<le> snd p" by force
  then show "case p of (k', n') \<Rightarrow> ?n \<le> n'" if "p \<in> set (take 8 ?G)" for p
    using that by (auto simp: case_prod_beta)
qed

text \<open>
  When no industry name is the name of an inherited member, the values of the industry
  table are numbers, and the table holds the 8 largest groups (all groups, when these are
  fewer) in non-increasing order of size, each with the number of its contacts; a group is
  missing only when 8 groups at least as large are present.
\<close>

lemma industryData_ordinary_top8:
  assumes "\<forall>c \<in> set cs. ordinary_name (industry_of c)"
  shows "\<exists>ps. industryData cs = map as_number ps
     \<and> length ps = min 8 (card (industry_of ` set cs))
     \<and> sorted_wrt (\<lambda>p q. snd q \<le> snd p) ps
     \<and> distinct (map fst ps)
     \<and> (\<forall>(k, n) \<in> set ps. n = group_size industry_of cs k \<and> 0 < n)
     \<and> (\<forall>k \<in> industry_of ` set cs.
           k \<notin> fst ` set ps \<longrightarrow>
             length ps = 8 \<and> (\<forall>(k', n') \<in> set ps. group_size industry_of cs k \<le> n'))"
  using industryData_ordinary[OF assms] top8_plain[of cs] by blast

text \<open>
  C8 states that \<open>industryData\<close> holds at most 8 entries in non-increasing order of count and
  that only industry groups beyond the 8 most frequent are dropped. The code does not do so
  for an industry whose name is the name of an inherited member of the counting object.
  Of four contacts, three in the industry \<open>__proto__\<close> and one in \<open>Retail\<close>, the table holds
  the single entry \<open>Retail\<close>: the largest group is dropped from a table of one entry. Of three
  contacts, one in the industry \<open>Retail\<close> followed by two in \<open>constructor\<close>, the table lists
  \<open>Retail\<close> with the count 1 before \<open>constructor\<close>, to which it gives a text in place of the
  count 2.
\<close>

theorem industryData_inherited_names:
  "industryData proto_contacts = [(''Retail'', Num 1)]
   \<and> group_size industry_of proto_contacts ''__proto__'' = 3
   \<and> group_size industry_of proto_contacts ''Retail'' = 1
   \<and> industryData constructor_contacts =
       [(''Retail'', Num 1), (''constructor'', Str ''function Object() { [native code] }11'')]
   \<and> group_size industry_of constructor_contacts ''Retail'' = 1
   \<and> group_size industry_of constructor_contacts ''constructor'' = 2"
  by (simp add: sample_defs eval_defs group_size_def)

section \<open>Sums of the grouped counts\<close>

lemma sum_take8_split:
  "sum_list (map snd (take 8 (groups_plain cs))) + sum_list (map snd (drop 8 (groups_plain cs)))
     = length cs"
  by (simp only: sum_take_drop sum_industry_groups)

lemma sum_dropped_zero_iff:
  "sum_list (map snd (drop 8 (groups_plain cs))) = 0 \<longleftrightarrow> card (industry_of ` set cs) \<le> 8"
proof
  assume z: "sum_list (map snd (drop 8 (groups_plain cs))) = 0"
  show "card (industry_of ` set cs) \<le> 8"
  proof (rule ccontr)
    assume "\<not> card (industry_of ` set cs) \<le> 8"
    then have "8 < length (groups_plain cs)" by (simp add: length_industry_groups)
    then have "drop 8 (groups_plain cs) \<noteq> []" by simp
    then obtain p ps where dp: "drop 8 (groups_plain cs) = p # ps"
      by (cases "drop 8 (groups_plain cs)") auto
    then have "p \<in> set (drop 8 (groups_plain cs))" by simp
    then have "p \<in> set (groups_plain cs)" by (rule in_set_dropD)
    then have "(fst p, snd p) \<in> set (groups_plain cs)" by simp
    then have "0 < snd p" using in_groups_plain_iff[of "fst p" "snd p" cs] by blast
    with z dp show False by simp
  qed
next
  assume "card (industry_of ` set cs) \<le> 8"
  then have "drop 8 (groups_plain cs) = []" by (simp add: length_industry_groups)
  then show "sum_list (map snd (drop 8 (groups_plain cs))) = 0" by simp
qed

lemma total_of_industryData_ordinary:
  assumes "\<forall>c \<in> set cs. ordinary_name (industry_of c)"
  shows "\<exists>n. total_of (industryData cs) = Some n \<and> n \<le> length cs
           \<and> (n = length cs \<longleftrightarrow> card (industry_of ` set cs) \<le> 8)"
proof -
  let ?n = "sum_list (map snd (take 8 (groups_plain cs)))"
  have t: "total_of (industryData cs) = Some ?n"
    by (simp only: industryData_ordinary[OF assms] total_of_as_number)
  have le: "?n \<le> length cs" using sum_take8_split[of cs] by linarith
  have eq: "?n = length cs \<longleftrightarrow> card (industry_of ` set cs) \<le> 8"
    using sum_take8_split[of cs] sum_dropped_zero_iff[of cs] by linarith
  from t le eq show ?thesis by blast
qed

text \<open>
  C1 (as amended): for every list of contacts none of whose source names is the name of an
  inherited member of the counting object, the counts of the source table sum to the length
  of the list, and likewise for the segment table. When no industry name is such a name,
  the counts of the industry table never sum to more than the length, and sum to it exactly
  when the contacts fall into at most 8 industry groups. The counts of the score table sum
  to the number of contacts whose score (0 when missing) lies in one of the five ranges,
  hence to the length exactly when every contact's score does.
\<close>

theorem grouped_counts_sum:
  "((\<forall>c \<in> set cs. ordinary_name (source_of c)) \<longrightarrow> total_of (sourceData cs) = Some (length cs))
   \<and> ((\<forall>c \<in> set cs. ordinary_name (segment_of c)) \<longrightarrow> total_of (segmentData cs) = Some (length cs))
   \<and> ((\<forall>c \<in> set cs. ordinary_name (industry_of c)) \<longrightarrow>
         (\<exists>n. total_of (industryData cs) = Some n \<and> n \<le> length cs
              \<and> (n = length cs \<longleftrightarrow> card (industry_of ` set cs) \<le> 8)))
   \<and> sum_list (map snd (scoreData cs)) = length (filter in_a_bucket cs)
   \<and> sum_list (map snd (scoreData cs)) \<le> length cs
   \<and> (sum_list (map snd (scoreData cs)) = length cs \<longleftrightarrow> (\<forall>c \<in> set cs. in_a_bucket c))"
proof -
  have s: "sum_list (map snd (scoreData cs)) = length (filter in_a_bucket cs)"
    using sum_scores_within[of cs] by (simp add: scoreData_closed)
  have s1: "sum_list (map snd (scoreData cs)) \<le> length cs"
    unfolding s by (rule length_filter_le)
  have s2: "sum_list (map snd (scoreData cs)) = length cs \<longleftrightarrow> (\<forall>c \<in> set cs. in_a_bucket c)"
    unfolding s by (rule length_filter_eq_iff)
  have a: "total_of (sourceData cs) = Some (length cs)"
    if "\<forall>c \<in> set cs. ordinary_name (source_of c)"
    unfolding sourceData_def using that by (rule total_of_table_ordinary)
  have b: "total_of (segmentData cs) = Some (length cs)"
    if "\<forall>c \<in> set cs. ordinary_name (segment_of c)"
    unfolding segmentData_def using that by (rule total_of_table_ordinary)
  from a b total_of_industryData_ordinary[of cs] s s1 s2 show ?thesis by blast
qed

theorem grouped_counts_sum_witness:
  "ordinary_name ''Referral'' \<and> ordinary_name ''Unknown'' \<and> ordinary_name ''Prospect''
   \<and> ordinary_name ''Banking'' \<and> ordinary_name ''Retail''
   \<and> card (industry_of ` set three_contacts) \<le> 8
   \<and> in_a_bucket (row ''Ann'' (Some ''Referral'') (Some ''Banking'') (Some 10))
   \<and> in_a_bucket (row ''Bob'' None (Some ''Retail'') (Some 35))
   \<and> in_a_bucket (row ''Cyd'' (Some ''Referral'') (Some ''Banking'') None)
   \<and> total_of (sourceData three_contacts) = Some 3
   \<and> total_of (segmentData three_contacts) = Some 3
   \<and> total_of (industryData three_contacts) = Some 3
   \<and> sum_list (map snd (scoreData three_contacts)) = 3"
proof -
  have o: "ordinary_name ''Referral''" "ordinary_name ''Unknown''" "ordinary_name ''Prospect''"
    "ordinary_name ''Banking''" "ordinary_name ''Retail''"
    by (simp_all add: ordinary_name_def inherited_functions_def)
  then have os: "\<forall>c \<in> set three_contacts. ordinary_name (source_of c)"
    and og: "\<forall>c \<in> set three_contacts. ordinary_name (segment_of c)"
    and oi: "\<forall>c \<in> set three_contacts. ordinary_name (industry_of c)"
    by (simp_all add: sample_defs source_of_def segment_of_def industry_of_def or_str_def)
  have "industry_of ` set three_contacts = {''Banking'', ''Retail''}"
    by (auto simp: sample_defs industry_of_def or_str_def)
  then have c: "card (industry_of ` set three_contacts) \<le> 8" by simp
  have b: "in_a_bucket (row ''Ann'' (Some ''Referral'') (Some ''Banking'') (Some 10))"
    "in_a_bucket (row ''Bob'' None (Some ''Retail'') (Some 35))"
    "in_a_bucket (row ''Cyd'' (Some ''Referral'') (Some ''Banking'') None)"
    by (simp_all add: in_a_bucket_def spec_score_def row_def)
  then have all: "\<forall>c \<in> set three_contacts. in_a_bucket c" by (simp add: three_contacts_def)
  have l: "length three_contacts = 3" by (simp add: three_contacts_def)
  note T = grouped_counts_sum[of three_contacts, unfolded l]
  from T os have t1: "total_of (sourceData three_contacts) = Some 3" by blast
  from T og have t2: "total_of (segmentData three_contacts) = Some 3" by blast
  from T oi c have t3: "total_of (industryData three_contacts) = Some 3" by auto
  from T all have t4: "sum_list (map snd (scoreData three_contacts)) = 3" by blast
  from o c b t1 t2 t3 t4 show ?thesis by blast
qed

theorem grouped_counts_sum_counterexample:
  "total_of (industryData ten_contacts) \<noteq> Some (length ten_contacts)
   \<and> sum_list (map snd (scoreData ten_contacts)) \<noteq> length ten_contacts
   \<and> total_of (sourceData proto_contacts) \<noteq> Some (length proto_contacts)"
  by (simp add: sample_defs eval_defs)

section \<open>Fetching the contacts\<close>

text \<open>
  C5: \<open>fetchContacts\<close> asks the backend for the contact rows ordered by \<open>contact_name\<close>, and
  makes no other query. When it has run, \<open>loading\<close> is false in every case. If the backend
  answered without an error, \<open>contacts\<close> holds the rows of the answer, the empty list when
  the answer's data is null; if the fetch failed (a rejected call or an answer that carries
  an error) \<open>contacts\<close> is what it was before.
\<close>

theorem fetchContacts_result:
  "loading (fst (fetchContacts answer s0)) = False
   \<and> hd (snd (fetchContacts answer s0))
       = SelectOrder ''contacts''
           ''id, contact_name, company_name, contact_source, industry, region, segment, score''
           ''contact_name''
   \<and> filter is_query (snd (fetchContacts answer s0)) = [hd (snd (fetchContacts answer s0))]
   \<and> (\<forall>r. answer = Resolved r \<and> error r = None \<longrightarrow>
          contacts (fst (fetchContacts answer s0))
            = (case data r of None \<Rightarrow> [] | Some rows \<Rightarrow> rows))
   \<and> ((\<exists>e. answer = Rejected e) \<or> (\<exists>r e. answer = Resolved r \<and> error r = Some e) \<longrightarrow>
          contacts (fst (fetchContacts answer s0)) = contacts s0)"
  by (auto simp: fetchContacts_def Let_def is_query_def split: awaited.splits option.splits)

theorem fetchContacts_result_witness:
  "contacts (fst (fetchContacts (Resolved \<lparr> data = Some three_contacts, error = None \<rparr>)
                     initial_dashboard)) = three_contacts
   \<and> contacts (fst (fetchContacts (Resolved \<lparr> data = None, error = None \<rparr>)
                     \<lparr> contacts = three_contacts, loading = False \<rparr>)) = []
   \<and> contacts (fst (fetchContacts (Resolved \<lparr> data = None, error = Some ''timeout'' \<rparr>)
                     \<lparr> contacts = three_contacts, loading = False \<rparr>)) = three_contacts
   \<and> contacts (fst (fetchContacts (Rejected ''network'')
                     \<lparr> contacts = three_contacts, loading = False \<rparr>)) = three_contacts
   \<and> loading (fst (fetchContacts (Rejected ''network'') initial_dashboard)) = False"
proof -
  let ?s = "\<lparr> contacts = three_contacts, loading = False \<rparr>"
  note A = fetchContacts_result[of "Resolved \<lparr> data = Some three_contacts, error = None \<rparr>"
             initial_dashboard, THEN conjunct2, THEN conjunct2, THEN conjunct2, THEN conjunct1,
             THEN spec, of "\<lparr> data = Some three_contacts, error = None \<rparr>"]
  then have a: "contacts (fst (fetchContacts (Resolved \<lparr> data = Some three_contacts, error = None \<rparr>)
                     initial_dashboard)) = three_contacts" by simp
  note B = fetchContacts_result[of "Resolved \<lparr> data = None, error = None \<rparr>"
             ?s, THEN conjunct2, THEN conjunct2, THEN conjunct2, THEN conjunct1,
             THEN spec, of "\<lparr> data = None, error = None \<rparr>"]
  then have b: "contacts (fst (fetchContacts (Resolved \<lparr> data = None, error = None \<rparr>) ?s)) = []"
    by simp
  note C = fetchContacts_result[of "Resolved \<lparr> data = None, error = Some ''timeout'' \<rparr>" ?s,
             THEN conjunct2, THEN conjunct2, THEN conjunct2, THEN conjunct2]
  then have c: "contacts (fst (fetchContacts (Resolved \<lparr> data = None, error = Some ''timeout'' \<rparr>) ?s))
      = three_contacts" by simp
  note D = fetchContacts_result[of "Rejected ''network''" ?s,
             THEN conjunct2, THEN conjunct2, THEN conjunct2, THEN conjunct2]
  then have d: "contacts (fst (fetchContacts (Rejected ''network'') ?s)) = three_contacts" by simp
  note E = fetchContacts_result[of "Rejected ''network''" initial_dashboard, THEN conjunct1]
  from a b c d E show ?thesis by blast
qed

section \<open>Bulk delete\<close>

text \<open>
  C10: with an empty selection the bulk-delete handler does nothing: it makes no call at
  all (no delete request, no audit log, no toast) and returns the page state as it was.
\<close>

theorem handleBulkDelete_empty_selection:
  "selectedContacts s = [] \<Longrightarrow> handleBulkDelete deleted logged s = (s, [])"
  by (simp add: handleBulkDelete_def)

theorem handleBulkDelete_empty_selection_witness:
  "selectedContacts initial_page = []
   \<and> handleBulkDelete (Resolved no_error) (Resolved ()) initial_page = (initial_page, [])"
proof -
  have e: "selectedContacts initial_page = []" by (simp add: initial_page_def)
  from handleBulkDelete_empty_selection[OF e, of "Resolved no_error" "Resolved ()"] e
  show ?thesis by blast
qed

text \<open>
  C3: with a non-empty selection the bulk-delete handler issues exactly one delete request,
  whatever the backend and the audit logger answer: it is the first call the handler makes,
  it is addressed to the \<open>contacts\<close> table, and the ids it names are those of the selection
  and no others.
\<close>

theorem handleBulkDelete_one_request:
  "selectedContacts s \<noteq> [] \<Longrightarrow>
     filter is_delete_request (snd (handleBulkDelete deleted logged s))
       = [DeleteIn ''contacts'' ''id'' (selectedContacts s)]
     \<and> hd (snd (handleBulkDelete deleted logged s))
       = DeleteIn ''contacts'' ''id'' (selectedContacts s)"
  by (simp add: handleBulkDelete_def is_delete_request_def Let_def
           split: awaited.splits option.splits)

theorem handleBulkDelete_one_request_witness:
  "selectedContacts selected_page \<noteq> []
   \<and> filter is_delete_request
        (snd (handleBulkDelete (Resolved no_error) (Resolved ()) selected_page))
       = [DeleteIn ''contacts'' ''id'' [''c1'', ''c2'']]
   \<and> snd (handleBulkDelete (Resolved no_error) (Resolved ()) selected_page)
       = [DeleteIn ''contacts'' ''id'' [''c1'', ''c2''],
          LogBulkDelete ''contacts'' 2 [''c1'', ''c2''],
          Toast \<lparr> title = ''Success'', description = ''2 contacts deleted successfully'',
                  variant = None \<rparr>]"
proof -
  have sel: "selectedContacts selected_page = [''c1'', ''c2'']"
    by (simp add: selected_page_def)
  then have n: "selectedContacts selected_page \<noteq> []" by simp
  have t: "snd (handleBulkDelete (Resolved no_error) (Resolved ()) selected_page)
       = [DeleteIn ''contacts'' ''id'' [''c1'', ''c2''],
          LogBulkDelete ''contacts'' 2 [''c1'', ''c2''],
          Toast \<lparr> title = ''Success'', description = ''2 contacts deleted successfully'',
                  variant = None \<rparr>]"
    by (simp add: handleBulkDelete_def selected_page_def initial_page_def no_error_def
          success_toast_def show_nat.simps)
  from handleBulkDelete_one_request[OF n, of "Resolved no_error" "Resolved ()"]
  have "filter is_delete_request
        (snd (handleBulkDelete (Resolved no_error) (Resolved ()) selected_page))
       = [DeleteIn ''contacts'' ''id'' [''c1'', ''c2'']]"
    unfolding sel by (rule conjunct1)
  with n t show ?thesis by blast
qed





section \<open>The view mode\<close>

lemma viewMode_handleBulkDelete:
  "viewMode (fst (handleBulkDelete deleted logged s)) = viewMode s"
  by (simp add: handleBulkDelete_def Let_def split: awaited.splits option.splits)

lemma viewMode_page_step:
  "viewMode s = ''table'' \<or> viewMode s = ''analytics'' \<Longrightarrow>
   viewMode (page_step s e) = ''table'' \<or> viewMode (page_step s e) = ''analytics''"
  by (cases e) (simp_all add: viewMode_handleBulkDelete)

lemma viewMode_run_page:
  "viewMode (run_page events) = ''table'' \<or> viewMode (run_page events) = ''analytics''"
proof (induction events rule: rev_induct)
  case Nil
  show ?case by (simp add: run_page_def initial_page_def)
next
  case (snoc e events)
  have "run_page (events @ [e]) = page_step (run_page events) e" by (simp add: run_page_def)
  with snoc viewMode_page_step[of "run_page events" e] show ?case by simp
qed

text \<open>
  C6: in every state the page can reach, \<open>viewMode\<close> is either \<open>table\<close> or \<open>analytics\<close>,
  and the main content area shows one presentation: the analytics dashboard if and only if
  \<open>viewMode\<close> is \<open>analytics\<close>, and otherwise, that is if and only if \<open>viewMode\<close> is
  \<open>table\<close>, the contact table.
\<close>

theorem viewMode_selects_presentation:
  "(viewMode (run_page events) = ''table'' \<or> viewMode (run_page events) = ''analytics'')
   \<and> (render_main (run_page events) = ContactAnalyticsDashboard
        \<longleftrightarrow> viewMode (run_page events) = ''analytics'')
   \<and> (render_main (run_page events)
        = ContactTable (showColumnCustomizer (run_page events)) (showModal (run_page events))
            (selectedContacts (run_page events)) (refreshTrigger (run_page events))
        \<longleftrightarrow> viewMode (run_page events) = ''table'')"
  using viewMode_run_page[of events] by (auto simp: render_main_def)

theorem viewMode_selects_presentation_witness:
  "viewMode (run_page [ClickAnalytics, OnRefresh]) = ''analytics''
   \<and> render_main (run_page [ClickAnalytics, OnRefresh]) = ContactAnalyticsDashboard
   \<and> viewMode (run_page [ClickAnalytics, ClickList, ClickAddContact]) = ''table''
   \<and> render_main (run_page [ClickAnalytics, ClickList, ClickAddContact])
       = ContactTable False True [] 0"
proof -
  have a: "viewMode (run_page [ClickAnalytics, OnRefresh]) = ''analytics''"
    by (simp add: run_page_def initial_page_def)
  have t: "viewMode (run_page [ClickAnalytics, ClickList, ClickAddContact]) = ''table''"
    by (simp add: run_page_def initial_page_def)
  have f: "showColumnCustomizer (run_page [ClickAnalytics, ClickList, ClickAddContact]) = False"
    "showModal (run_page [ClickAnalytics, ClickList, ClickAddContact]) = True"
    "selectedContacts (run_page [ClickAnalytics, ClickList, ClickAddContact]) = []"
    "refreshTrigger (run_page [ClickAnalytics, ClickList, ClickAddContact]) = 0"
    by (simp_all add: run_page_def initial_page_def)
  note A = viewMode_selects_presentation[of "[ClickAnalytics, OnRefresh]"]
  note B = viewMode_selects_presentation[of "[ClickAnalytics, ClickList, ClickAddContact]", unfolded f]
  from A a have ra: "render_main (run_page [ClickAnalytics, OnRefresh]) = ContactAnalyticsDashboard"
    by blast
  from B t have rt: "render_main (run_page [ClickAnalytics, ClickList, ClickAddContact])
       = ContactTable False True [] 0" by blast
  from a t ra rt show ?thesis by blast
qed

end
